theory Spec2Isabelle
  imports Main
begin

unbundle bit_operations_syntax

section \<open>JavaScript maps and sets, in insertion order\<close>

text \<open>
  A JavaScript \<open>Map\<close> iterates in insertion order, keeps one entry per key, and
  \<open>set\<close> on a key that is present replaces the value without moving the entry. It is
  modelled as an association list with pairwise distinct keys; \<open>map_of\<close> is \<open>get\<close>,
  with \<open>None\<close> for JavaScript's \<open>undefined\<close>.
\<close>

type_synonym ('k, 'v) js_map = "('k \<times> 'v) list"

fun map_set :: "('k, 'v) js_map \<Rightarrow> 'k \<Rightarrow> 'v \<Rightarrow> ('k, 'v) js_map" where
  "map_set [] k v = [(k, v)]"
| "map_set ((k', v') # m) k v =
     (if k' = k then (k, v) # m else (k', v') # map_set m k v)"

definition map_delete :: "('k, 'v) js_map \<Rightarrow> 'k \<Rightarrow> ('k, 'v) js_map" where
  "map_delete m k = filter (\<lambda>e. fst e \<noteq> k) m"

definition map_has :: "('k, 'v) js_map \<Rightarrow> 'k \<Rightarrow> bool" where
  "map_has m k = (k \<in> set (map fst m))"

definition map_keys :: "('k, 'v) js_map \<Rightarrow> 'k list" where
  "map_keys m = map fst m"

text \<open>\<open>Set.add\<close>: a value already in the set keeps its place.\<close>

definition set_add :: "'a list \<Rightarrow> 'a \<Rightarrow> 'a list" where
  "set_add xs x = (if x \<in> set xs then xs else xs @ [x])"

section \<open>SHA-256 and ring positions\<close>

text \<open>
  \<open>crypto.createHash('sha256').update(key).digest('hex')\<close>: the digest of the key's
  bytes as 64 lower-case hexadecimal digits. Words are 32-bit unsigned integers, kept as
  natural numbers below \<open>2 ^ 32\<close> with the wrap-around of the additions written out.
\<close>

definition add32 :: "nat \<Rightarrow> nat \<Rightarrow> nat" where
  "add32 a b = (a + b) mod 4294967296"

definition rotr :: "nat \<Rightarrow> nat \<Rightarrow> nat" where
  "rotr n x = x div 2 ^ n + (x mod 2 ^ n) * 2 ^ (32 - n)"

definition shr :: "nat \<Rightarrow> nat \<Rightarrow> nat" where
  "shr n x = x div 2 ^ n"

definition ch :: "nat \<Rightarrow> nat \<Rightarrow> nat \<Rightarrow> nat" where
  "ch x y z = (x AND y) XOR ((4294967295 - x) AND z)"

definition maj :: "nat \<Rightarrow> nat \<Rightarrow> nat \<Rightarrow> nat" where
  "maj x y z = (x AND y) XOR (x AND z) XOR (y AND z)"

definition bsig0 :: "nat \<Rightarrow> nat" where
  "bsig0 x = rotr 2 x XOR rotr 13 x XOR rotr 22 x"

definition bsig1 :: "nat \<Rightarrow> nat" where
  "bsig1 x = rotr 6 x XOR rotr 11 x XOR rotr 25 x"

definition ssig0 :: "nat \<Rightarrow> nat" where
  "ssig0 x = rotr 7 x XOR rotr 18 x XOR shr 3 x"

definition ssig1 :: "nat \<Rightarrow> nat" where
  "ssig1 x = rotr 17 x XOR rotr 19 x XOR shr 10 x"

definition round_constants :: "nat list" where
  "round_constants =
    [1116352408, 1899447441, 3049323471, 3921009573, 961987163, 1508970993,
     2453635748, 2870763221, 3624381080, 310598401, 607225278, 1426881987,
     1925078388, 2162078206, 2614888103, 3248222580, 3835390401, 4022224774,
     264347078, 604807628, 770255983, 1249150122, 1555081692, 1996064986,
     2554220882, 2821834349, 2952996808, 3210313671, 3336571891, 3584528711,
     113926993, 338241895, 666307205, 773529912, 1294757372, 1396182291,
     1695183700, 1986661051, 2177026350, 2456956037, 2730485921, 2820302411,
     3259730800, 3345764771, 3516065817, 3600352804, 4094571909, 275423344,
     430227734, 506948616, 659060556, 883997877, 958139571, 1322822218,
     1537002063, 1747873779, 1955562222, 2024104815, 2227730452, 2361852424,
     2428436474, 2756734187, 3204031479, 3329325298]"

definition initial_state :: "nat list" where
  "initial_state =
    [1779033703, 3144134277, 1013904242, 2773480762,
     1359893119, 2600822924, 528734635, 1541459225]"

fun sha_round :: "nat \<Rightarrow> nat \<Rightarrow> nat list \<Rightarrow> nat list" where
  "sha_round k w [a, b, c, d, e, f, g, h] =
     (let t1 = add32 (add32 (add32 (add32 h (bsig1 e)) (ch e f g)) k) w;
          t2 = add32 (bsig0 a) (maj a b c)
      in [add32 t1 t2, a, b, c, add32 d t1, e, f, g])"
| "sha_round k w st = st"

text \<open>The message schedule, as a sliding window of the last sixteen words.\<close>

fun next_window :: "nat list \<Rightarrow> nat list" where
  "next_window [w0, w1, w2, w3, w4, w5, w6, w7, w8, w9, w10, w11, w12, w13, w14, w15] =
     [w1, w2, w3, w4, w5, w6, w7, w8, w9, w10, w11, w12, w13, w14, w15,
      add32 (add32 (add32 (ssig1 w14) w9) (ssig0 w1)) w0]"
| "next_window ws = ws"

fun sha_rounds :: "nat list \<Rightarrow> nat list \<Rightarrow> nat list \<Rightarrow> nat list" where
  "sha_rounds [] win st = st"
| "sha_rounds (k # ks) win st =
     sha_rounds ks (next_window win) (sha_round k (hd win) st)"

definition compress :: "nat list \<Rightarrow> nat list \<Rightarrow> nat list" where
  "compress st block = map2 add32 st (sha_rounds round_constants block st)"

fun be_words :: "nat list \<Rightarrow> nat list" where
  "be_words (a # b # c # d # rest) =
     (((a * 256 + b) * 256 + c) * 256 + d) # be_words rest"
| "be_words bs = []"

definition be_bytes8 :: "nat \<Rightarrow> nat list" where
  "be_bytes8 n = map (\<lambda>i. n div 256 ^ i mod 256) [7, 6, 5, 4, 3, 2, 1, 0]"

definition sha_pad :: "nat list \<Rightarrow> nat list" where
  "sha_pad bs = bs @ [128] @ replicate ((119 - length bs mod 64) mod 64) 0
                   @ be_bytes8 (8 * length bs)"

fun blocks :: "nat list \<Rightarrow> nat list list" where
  "blocks [] = []"
| "blocks ws = take 16 ws # blocks (drop 16 ws)"

definition sha256_words :: "string \<Rightarrow> nat list" where
  "sha256_words s = foldl compress initial_state (blocks (be_words (sha_pad (map of_char s))))"

definition hex_digit :: "nat \<Rightarrow> char" where
  "hex_digit d = (''0123456789abcdef'') ! d"

definition hex8 :: "nat \<Rightarrow> string" where
  "hex8 n = map (\<lambda>i. hex_digit (n div 16 ^ i mod 16)) [7, 6, 5, 4, 3, 2, 1, 0]"

definition hash :: "string \<Rightarrow> string" where
  "hash key = concat (map hex8 (sha256_words key))"

text \<open>
  \<open>parseInt(hash.substring(0, 8), 16)\<close>: the leading hexadecimal digits of the first
  eight characters, read as a number. (\<open>parseInt\<close> stops at the first character that
  is no digit; a digest has none.)
\<close>

definition hex_value :: "char \<Rightarrow> nat option" where
  "hex_value c =
     (let n = (of_char c :: nat)
      in if 48 \<le> n \<and> n \<le> 57 then Some (n - 48)
         else if 97 \<le> n \<and> n \<le> 102 then Some (n - 87)
         else if 65 \<le> n \<and> n \<le> 70 then Some (n - 55)
         else None)"

fun parse_hex :: "nat \<Rightarrow> string \<Rightarrow> nat" where
  "parse_hex acc [] = acc"
| "parse_hex acc (c # cs) =
     (case hex_value c of None \<Rightarrow> acc | Some d \<Rightarrow> parse_hex (16 * acc + d) cs)"

definition hashToPosition :: "string \<Rightarrow> nat" where
  "hashToPosition h = parse_hex 0 (take 8 h)"

section \<open>The consistent-hashing ring\<close>

type_synonym node_id = string

record node_info =
  address :: string
  status :: string

record consistent_hashing =
  replicationFactor :: nat
  virtualNodes :: nat
  ring :: "(nat, node_id) js_map"
  sortedHashes :: "nat list"
  nodes :: "(node_id, node_info) js_map"

definition new_ConsistentHashing :: "nat \<Rightarrow> nat \<Rightarrow> consistent_hashing" where
  "new_ConsistentHashing r v =
     \<lparr>replicationFactor = r, virtualNodes = v, ring = [], sortedHashes = [], nodes = []\<rparr>"

text \<open>The decimal digits of the loop counter, as the template literal prints them.\<close>

fun decimal :: "nat \<Rightarrow> string" where
  "decimal n =
     (if n < 10 then [char_of (48 + n)]
      else decimal (n div 10) @ [char_of (48 + n mod 10)])"

declare decimal.simps [simp del]

definition virtualNodeKey :: "node_id \<Rightarrow> nat \<Rightarrow> string" where
  "virtualNodeKey nodeId i = nodeId @ '':'' @ decimal i"

definition virtualPosition :: "node_id \<Rightarrow> nat \<Rightarrow> nat" where
  "virtualPosition nodeId i = hashToPosition (hash (virtualNodeKey nodeId i))"

definition addNode :: "node_id \<Rightarrow> node_info \<Rightarrow> consistent_hashing \<Rightarrow> consistent_hashing" where
  "addNode nodeId nodeInfo s =
     (let ring' = foldl (\<lambda>r i. map_set r (virtualPosition nodeId i) nodeId) (ring s)
                    [0..<virtualNodes s]
      in s\<lparr>nodes := map_set (nodes s) nodeId nodeInfo,
           ring := ring',
           sortedHashes := sort (map_keys ring')\<rparr>)"

definition removeNode :: "node_id \<Rightarrow> consistent_hashing \<Rightarrow> bool \<times> consistent_hashing" where
  "removeNode nodeId s =
     (if \<not> map_has (nodes s) nodeId then (False, s)
      else
        let ring' = foldl (\<lambda>r i. map_delete r (virtualPosition nodeId i)) (ring s)
                      [0..<virtualNodes s]
        in (True, s\<lparr>ring := ring',
                     nodes := map_delete (nodes s) nodeId,
                     sortedHashes := sort (map_keys ring')\<rparr>))"

text \<open>The index of the first sorted position not below the key's, if there is one.\<close>

fun first_index :: "('a \<Rightarrow> bool) \<Rightarrow> 'a list \<Rightarrow> nat option" where
  "first_index P [] = None"
| "first_index P (x # xs) =
     (if P x then Some 0 else map_option Suc (first_index P xs))"

definition getNode :: "string \<Rightarrow> consistent_hashing \<Rightarrow> node_id option" where
  "getNode key s =
     (if sortedHashes s = [] then None
      else
        let position = hashToPosition (hash key)
        in case find (\<lambda>hashPos. hashPos \<ge> position) (sortedHashes s) of
             Some hashPos \<Rightarrow> map_of (ring s) hashPos
           | None \<Rightarrow> map_of (ring s) (hd (sortedHashes s)))"

text \<open>
  The collecting loop of \<open>getReplicaNodes\<close>. The set of replicas is a list in insertion
  order; what \<open>ring.get\<close> returns is a node id or \<open>undefined\<close> (\<open>None\<close>). The loop has no
  bound of its own, so it is a partial function: \<open>None\<close> is a loop that never returns.
\<close>

partial_function (option) collectReplicas ::
  "consistent_hashing \<Rightarrow> nat \<Rightarrow> node_id option list \<Rightarrow> node_id option list option" where
  "collectReplicas s currentIndex replicas =
     (if length replicas < replicationFactor s \<and> length replicas < length (nodes s)
      then collectReplicas s ((currentIndex + 1) mod length (sortedHashes s))
             (set_add replicas (map_of (ring s) (sortedHashes s ! currentIndex)))
      else Some replicas)"

definition startIndex :: "nat list \<Rightarrow> nat \<Rightarrow> nat" where
  "startIndex hs position =
     (case first_index (\<lambda>hashPos. hashPos \<ge> position) hs of Some i \<Rightarrow> i | None \<Rightarrow> 0)"

definition getReplicaNodes :: "string \<Rightarrow> consistent_hashing \<Rightarrow> node_id option list option" where
  "getReplicaNodes key s =
     (if sortedHashes s = [] then Some []
      else collectReplicas s (startIndex (sortedHashes s) (hashToPosition (hash key))) [])"

definition getAllNodes :: "consistent_hashing \<Rightarrow> node_id list" where
  "getAllNodes s = map_keys (nodes s)"

text \<open>
  Words of the specification, for comparison with the code: the ring positions in
  clockwise order from a key's position (the positions not below it in ascending order,
  then, wrapping around, the ones below it), and the elements of a list in the order of
  their first occurrence.
\<close>

definition clockwise_from :: "nat \<Rightarrow> nat list \<Rightarrow> nat list" where
  "clockwise_from h positions = sort [p \<leftarrow> positions. h \<le> p] @ sort [p \<leftarrow> positions. p < h]"

fun first_occurrences_from :: "'a list \<Rightarrow> 'a list \<Rightarrow> 'a list" where
  "first_occurrences_from seen [] = []"
| "first_occurrences_from seen (x # xs) =
     (if x \<in> set seen then first_occurrences_from seen xs
      else x # first_occurrences_from (x # seen) xs)"

definition first_occurrences :: "'a list \<Rightarrow> 'a list" where
  "first_occurrences xs = first_occurrences_from [] xs"

text \<open>
  Auxiliary notions for the proofs about the collecting loop: the owners of the sorted
  positions, the number of replicas the loop waits for, and the loop run over a finite
  list of owners.
\<close>

definition owners :: "consistent_hashing \<Rightarrow> node_id option list" where
  "owners s = map (map_of (ring s)) (sortedHashes s)"

definition quota :: "consistent_hashing \<Rightarrow> nat" where
  "quota s = min (replicationFactor s) (length (nodes s))"

fun collect_capped :: "nat \<Rightarrow> 'a list \<Rightarrow> 'a list \<Rightarrow> 'a list" where
  "collect_capped m acc [] = acc"
| "collect_capped m acc (x # xs) =
     (if length acc < m then collect_capped m (set_add acc x) xs else acc)"

section \<open>The node: local store, peers and failure detection\<close>

text \<open>
  A stored value is whatever the client sent, or \<open>undefined\<close> when the request body had
  no \<open>value\<close> field. Every reading of the clock (\<open>Date.now()\<close>) is an argument of the
  operation that reads it.
\<close>

datatype js_value = Undefined | Json string

record write_metadata =
  version :: nat
  timestamp :: int
  md_nodeId :: node_id

record socket =
  connected :: bool

record peer =
  peer_address :: string
  peer_socket :: "socket option"
  lastSeen :: int

record node =
  this_nodeId :: node_id
  data :: "(string, js_value) js_map"
  metadata :: "(string, write_metadata) js_map"
  peers :: "(node_id, peer) js_map"
  lastHeartbeat :: "(node_id, int) js_map"

definition new_Node :: "node_id \<Rightarrow> node" where
  "new_Node nodeId =
     \<lparr>this_nodeId = nodeId, data = [], metadata = [], peers = [], lastHeartbeat = []\<rparr>"

text \<open>The \<open>identify\<close>, \<open>heartbeat\<close> and \<open>disconnect\<close> handlers of a peer's socket.\<close>

definition handleIdentify :: "node_id \<Rightarrow> string \<Rightarrow> int \<Rightarrow> node \<Rightarrow> node" where
  "handleIdentify peerId addr now n =
     n\<lparr>peers := map_set (peers n) peerId
                  \<lparr>peer_address = addr, peer_socket = Some \<lparr>connected = True\<rparr>, lastSeen = now\<rparr>,
       lastHeartbeat := map_set (lastHeartbeat n) peerId now\<rparr>"

definition handleHeartbeat :: "node_id option \<Rightarrow> int \<Rightarrow> node \<Rightarrow> node" where
  "handleHeartbeat socketPeerId now n =
     (case socketPeerId of
        None \<Rightarrow> n
      | Some peerId \<Rightarrow> n\<lparr>lastHeartbeat := map_set (lastHeartbeat n) peerId now\<rparr>)"

definition handleDisconnect :: "node_id option \<Rightarrow> node \<Rightarrow> node" where
  "handleDisconnect socketPeerId n =
     (case socketPeerId of
        None \<Rightarrow> n
      | Some peerId \<Rightarrow> n\<lparr>peers := map_delete (peers n) peerId,
                          lastHeartbeat := map_delete (lastHeartbeat n) peerId\<rparr>)"

definition storeData :: "int \<Rightarrow> string \<Rightarrow> js_value \<Rightarrow> nat \<Rightarrow> node \<Rightarrow> node" where
  "storeData now key val ver n =
     n\<lparr>data := map_set (data n) key val,
       metadata := map_set (metadata n) key
                     \<lparr>version = ver, timestamp = now, md_nodeId = this_nodeId n\<rparr>\<rparr>"

record stored_record =
  rec_value :: js_value
  rec_metadata :: "write_metadata option"

definition getData :: "string \<Rightarrow> node \<Rightarrow> stored_record option" where
  "getData key n =
     (case map_of (data n) key of
        Some (Json v) \<Rightarrow> Some \<lparr>rec_value = Json v, rec_metadata = map_of (metadata n) key\<rparr>
      | _ \<Rightarrow> None)"

record replication_message =
  msg_key :: string
  msg_value :: js_value
  msg_metadata :: write_metadata

definition handleReplication :: "replication_message \<Rightarrow> int \<Rightarrow> node \<Rightarrow> node" where
  "handleReplication msg now n =
     (case map_of (metadata n) (msg_key msg) of
        None \<Rightarrow> storeData now (msg_key msg) (msg_value msg) (version (msg_metadata msg)) n
      | Some existingMetadata \<Rightarrow>
          if timestamp (msg_metadata msg) > timestamp existingMetadata
          then storeData now (msg_key msg) (msg_value msg) (version (msg_metadata msg)) n
          else n)"

definition handleReadRequest :: "string \<Rightarrow> node \<Rightarrow> stored_record option" where
  "handleReadRequest key n = getData key n"

record write_reply =
  reply_success :: bool
  reply_nodeId :: node_id

definition handleWriteRequest :: "replication_message \<Rightarrow> int \<Rightarrow> node \<Rightarrow> write_reply \<times> node" where
  "handleWriteRequest msg now n =
     (\<lparr>reply_success = True, reply_nodeId = this_nodeId n\<rparr>,
      storeData now (msg_key msg) (msg_value msg) (version (msg_metadata msg)) n)"

text \<open>
  \<open>replicateToPeers\<close>: one promise for every target that is not the node itself and has
  a peer entry with a socket. Each emits \<open>replicate_data\<close> with the key, the value and the
  metadata to that peer, and resolves to a result: \<open>acked t\<close> says whether the
  acknowledgement of target \<open>t\<close> arrives before the three-second timer.
\<close>

record write_result =
  wr_nodeId :: "node_id option"
  wr_success :: bool
  wr_error :: "string option"

record emitted =
  to_peer :: node_id
  payload :: replication_message

fun replicateToPeers ::
  "node \<Rightarrow> string \<Rightarrow> js_value \<Rightarrow> write_metadata \<Rightarrow> (node_id \<Rightarrow> bool) \<Rightarrow> node_id option list
     \<Rightarrow> (emitted \<times> write_result) list" where
  "replicateToPeers n key val md acked [] = []"
| "replicateToPeers n key val md acked (target # targetNodes) =
     (if target = Some (this_nodeId n) then replicateToPeers n key val md acked targetNodes
      else
        case target of
          None \<Rightarrow> replicateToPeers n key val md acked targetNodes
        | Some t \<Rightarrow>
            (case map_of (peers n) t of
               None \<Rightarrow> replicateToPeers n key val md acked targetNodes
             | Some p \<Rightarrow>
                 (case peer_socket p of
                    None \<Rightarrow> replicateToPeers n key val md acked targetNodes
                  | Some sock \<Rightarrow>
                      (\<lparr>to_peer = t,
                        payload = \<lparr>msg_key = key, msg_value = val, msg_metadata = md\<rparr>\<rparr>,
                       if acked t
                       then \<lparr>wr_nodeId = target, wr_success = True, wr_error = None\<rparr>
                       else \<lparr>wr_nodeId = target, wr_success = False, wr_error = Some ''timeout''\<rparr>)
                      # replicateToPeers n key val md acked targetNodes)))"

text \<open>Whether a target of a fan-out has a peer entry with a socket.\<close>

definition has_link :: "node \<Rightarrow> node_id option \<Rightarrow> bool" where
  "has_link n target =
     (case target of
        None \<Rightarrow> False
      | Some t \<Rightarrow> (case map_of (peers n) t of None \<Rightarrow> False | Some p \<Rightarrow> peer_socket p \<noteq> None))"

definition handleNodeFailure :: "node_id \<Rightarrow> node \<Rightarrow> node" where
  "handleNodeFailure failedNodeId n =
     n\<lparr>peers := map_delete (peers n) failedNodeId,
       lastHeartbeat := map_delete (lastHeartbeat n) failedNodeId\<rparr>"

definition failureThreshold :: int where
  "failureThreshold = 10000"

text \<open>
  \<open>checkForFailedNodes\<close> visits the entries of \<open>lastHeartbeat\<close>; a visit deletes at most
  the entry it is at, so the entries visited are those present when the loop starts.
\<close>

definition checkForFailedNodes :: "int \<Rightarrow> node \<Rightarrow> node" where
  "checkForFailedNodes now n =
     foldl (\<lambda>n' e. if now - snd e > failureThreshold then handleNodeFailure (fst e) n' else n')
       n (lastHeartbeat n)"

section \<open>The cluster: coordinator of PUT and GET\<close>

record cluster =
  consistentHashing :: consistent_hashing
  localNode :: node
  quorumSize :: nat

text \<open>
  \<open>new Cluster(replicationFactor)\<close> followed by \<open>createNode\<close>: the ring has the default
  150 virtual nodes per node.
\<close>

definition createNode :: "nat \<Rightarrow> node_id \<Rightarrow> string \<Rightarrow> cluster" where
  "createNode r nodeId addr =
     \<lparr>consistentHashing =
        addNode nodeId \<lparr>address = addr, status = ''alive''\<rparr> (new_ConsistentHashing r 150),
      localNode = new_Node nodeId,
      quorumSize = r div 2 + 1\<rparr>"

definition cluster_addNode :: "node_id \<Rightarrow> string \<Rightarrow> cluster \<Rightarrow> cluster" where
  "cluster_addNode nodeId addr c =
     c\<lparr>consistentHashing :=
         addNode nodeId \<lparr>address = addr, status = ''alive''\<rparr> (consistentHashing c)\<rparr>"

text \<open>The heartbeat timer of the local node; the node object is all its callback reaches.\<close>

definition heartbeatTimer :: "int \<Rightarrow> cluster \<Rightarrow> cluster" where
  "heartbeatTimer now c = c\<lparr>localNode := checkForFailedNodes now (localNode c)\<rparr>"

text \<open>
  What a call does: it returns, it throws, or (when the collecting loop of the ring does
  not end) it never returns.
\<close>

datatype js_error = TypeError

datatype 'a outcome = Returns 'a | Throws js_error | Diverges

record put_result =
  success :: bool
  put_key :: string
  replicaNodes :: "node_id option list"
  successfulWrites :: nat
  put_quorumSize :: nat
  quorumAchieved :: bool
  writeResults :: "write_result list"

text \<open>
  \<open>put\<close> reads the clock for the metadata it sends to the peers (\<open>now\<close>); \<open>storeData\<close>
  reads it again when the local node is a replica (\<open>storeNow\<close>). Besides the result, the
  model returns the messages emitted and the cluster with the local node updated.
\<close>

definition put ::
  "string \<Rightarrow> js_value \<Rightarrow> int \<Rightarrow> int \<Rightarrow> (node_id \<Rightarrow> bool) \<Rightarrow> cluster
     \<Rightarrow> (put_result \<times> emitted list \<times> cluster) outcome" where
  "put key val now storeNow acked c =
     (let md = \<lparr>version = 1, timestamp = now, md_nodeId = this_nodeId (localNode c)\<rparr>
      in case getReplicaNodes key (consistentHashing c) of
           None \<Rightarrow> Diverges
         | Some targets \<Rightarrow>
             let self = this_nodeId (localNode c);
                 isReplica = (Some self \<in> set targets);
                 node' = (if isReplica then storeData storeNow key val 1 (localNode c)
                          else localNode c);
                 replication = replicateToPeers node' key val md acked targets;
                 results = (if isReplica
                            then [\<lparr>wr_nodeId = Some self, wr_success = True, wr_error = None\<rparr>]
                            else [])
                           @ map snd replication;
                 written = length (filter wr_success results)
             in Returns
                  (\<lparr>success = (written \<ge> quorumSize c),
                    put_key = key,
                    replicaNodes = targets,
                    successfulWrites = written,
                    put_quorumSize = quorumSize c,
                    quorumAchieved = (written \<ge> quorumSize c),
                    writeResults = results\<rparr>,
                   map fst replication,
                   c\<lparr>localNode := node'\<rparr>))"

text \<open>
  \<open>readFromPeer\<close>: what the peer answers to \<open>read_request\<close> within three seconds, if it
  does.
\<close>

datatype read_reply = Reply "stored_record option" | NoReply

record read_result =
  rr_nodeId :: "node_id option"
  rr_success :: bool
  rr_data :: "stored_record option"
  rr_error :: "string option"

definition readFromPeer :: "node \<Rightarrow> (node_id \<Rightarrow> read_reply) \<Rightarrow> node_id option \<Rightarrow> read_result" where
  "readFromPeer n replies target =
     (case (case target of None \<Rightarrow> None
            | Some t \<Rightarrow> (case map_of (peers n) t of None \<Rightarrow> None
                         | Some p \<Rightarrow> map_option (\<lambda>sock. t) (peer_socket p))) of
        None \<Rightarrow> \<lparr>rr_nodeId = target, rr_success = False, rr_data = None,
                  rr_error = Some ''not_connected''\<rparr>
      | Some t \<Rightarrow>
          (case replies t of
             Reply (Some response) \<Rightarrow>
               \<lparr>rr_nodeId = target, rr_success = True, rr_data = Some response, rr_error = None\<rparr>
           | Reply None \<Rightarrow>
               \<lparr>rr_nodeId = target, rr_success = False, rr_data = None,
                rr_error = Some ''not_found''\<rparr>
           | NoReply \<Rightarrow>
               \<lparr>rr_nodeId = target, rr_success = False, rr_data = None,
                rr_error = Some ''timeout''\<rparr>))"

text \<open>
  The conflict resolution of \<open>get\<close>: \<open>reduce\<close> without an initial value, so the first
  result starts as the latest. Reading \<open>.timestamp\<close> of a missing metadata object throws.
\<close>

definition result_timestamp :: "read_result \<Rightarrow> int option" where
  "result_timestamp r =
     (case rr_data r of
        None \<Rightarrow> None
      | Some d \<Rightarrow> map_option timestamp (rec_metadata d))"

fun latest_of :: "read_result \<Rightarrow> read_result list \<Rightarrow> js_error + read_result" where
  "latest_of latest [] = Inr latest"
| "latest_of latest (current # rest) =
     (case result_timestamp current of
        None \<Rightarrow> Inl TypeError
      | Some tcur \<Rightarrow>
          (case result_timestamp latest of
             None \<Rightarrow> Inl TypeError
           | Some tlat \<Rightarrow> latest_of (if tcur > tlat then current else latest) rest))"

record get_result =
  get_value :: js_value
  get_metadata :: "write_metadata option"
  readResults :: nat
  read_quorumAchieved :: bool

definition collectReadResults ::
  "string \<Rightarrow> (node_id \<Rightarrow> read_reply) \<Rightarrow> node_id option list \<Rightarrow> cluster \<Rightarrow> read_result list" where
  "collectReadResults key replies targets c =
     (let self = this_nodeId (localNode c)
      in (if Some self \<in> set targets
          then (case getData key (localNode c) of
                  None \<Rightarrow> []
                | Some localData \<Rightarrow>
                    [\<lparr>rr_nodeId = Some self, rr_success = True, rr_data = Some localData,
                      rr_error = None\<rparr>])
          else [])
         @ filter rr_success
             (map (readFromPeer (localNode c) replies) (filter (\<lambda>t. t \<noteq> Some self) targets)))"

definition resolve :: "read_result list \<Rightarrow> nat \<Rightarrow> get_result option outcome" where
  "resolve results quorum =
     (case results of
        [] \<Rightarrow> Returns None
      | first # rest \<Rightarrow>
          (case latest_of first rest of
             Inl e \<Rightarrow> Throws e
           | Inr latestResult \<Rightarrow>
               (case rr_data latestResult of
                  None \<Rightarrow> Throws TypeError
                | Some d \<Rightarrow>
                    Returns (Some \<lparr>get_value = rec_value d,
                                   get_metadata = rec_metadata d,
                                   readResults = length results,
                                   read_quorumAchieved = (length results \<ge> quorum)\<rparr>))))"

definition get ::
  "string \<Rightarrow> (node_id \<Rightarrow> read_reply) \<Rightarrow> cluster \<Rightarrow> get_result option outcome" where
  "get key replies c =
     (case getReplicaNodes key (consistentHashing c) of
        None \<Rightarrow> Diverges
      | Some targets \<Rightarrow> resolve (collectReadResults key replies targets c) (quorumSize c))"




section \<open>Example rings\<close>

text \<open>
  Rings with one virtual node per node (\<open>new ConsistentHashing(3, 1)\<close>). The virtual-node
  keys \<open>node-94893:0\<close> and \<open>node-147767:0\<close> have the same first 32 bits of SHA-256.
\<close>

definition localhost_3001 :: node_info where
  "localhost_3001 = \<lparr>address = ''localhost:3001'', status = ''alive''\<rparr>"

definition localhost_3002 :: node_info where
  "localhost_3002 = \<lparr>address = ''localhost:3002'', status = ''alive''\<rparr>"

definition ring_of_node_1 :: consistent_hashing where
  "ring_of_node_1 = addNode ''node-1'' localhost_3001 (new_ConsistentHashing 3 1)"

definition ring_of_two :: consistent_hashing where
  "ring_of_two = addNode ''node-2'' localhost_3002 ring_of_node_1"

definition ring_of_one :: consistent_hashing where
  "ring_of_one = addNode ''node-94893'' localhost_3001 (new_ConsistentHashing 3 1)"

definition colliding_ring :: consistent_hashing where
  "colliding_ring = addNode ''node-147767'' localhost_3002 ring_of_one"

section \<open>Example nodes and clusters\<close>

text \<open>
  The cluster of \<open>node-1\<close> whose ring also holds \<open>node-2\<close>: once with no peer link to
  \<open>node-2\<close>, once after \<open>node-2\<close> has identified itself at time 0. So that \<open>getReplicaNodes\<close>
  can be evaluated, these clusters have the ring of two above, with one virtual node per
  node, where \<open>new Cluster\<close> builds a ring with 150.
\<close>

definition cluster_unlinked :: cluster where
  "cluster_unlinked =
     \<lparr>consistentHashing = ring_of_two, localNode = new_Node ''node-1'', quorumSize = 2\<rparr>"

definition cluster_linked :: cluster where
  "cluster_linked =
     \<lparr>consistentHashing = ring_of_two,
      localNode = handleIdentify ''node-2'' ''localhost:3002'' 0 (new_Node ''node-1''),
      quorumSize = 2\<rparr>"

definition write_v1 :: replication_message where
  "write_v1 =
     \<lparr>msg_key = ''k'', msg_value = Json ''v1'',
      msg_metadata = \<lparr>version = 1, timestamp = 100, md_nodeId = ''node-1''\<rparr>\<rparr>"

definition write_v2 :: replication_message where
  "write_v2 =
     \<lparr>msg_key = ''k'', msg_value = Json ''v2'',
      msg_metadata = \<lparr>version = 1, timestamp = 200, md_nodeId = ''node-1''\<rparr>\<rparr>"

definition seed_cluster :: cluster where
  "seed_cluster = createNode 1 ''node-1'' ''localhost:3001''"

text \<open>
  Two coordinators of one key: each has stored its own write at clock reading 5 and is
  linked to the other; \<open>node-2\<close> built its ring in the other order. A peer answers a
  \<open>read_request\<close> from its own store.
\<close>

definition ring_of_two_at_2 :: consistent_hashing where
  "ring_of_two_at_2 =
     addNode ''node-1'' localhost_3001
       (addNode ''node-2'' localhost_3002 (new_ConsistentHashing 3 1))"

definition coordinator_1 :: cluster where
  "coordinator_1 =
     \<lparr>consistentHashing = ring_of_two,
      localNode = storeData 5 ''user:1'' (Json ''A'') 1
                    (handleIdentify ''node-2'' ''localhost:3002'' 0 (new_Node ''node-1'')),
      quorumSize = 2\<rparr>"

definition coordinator_2 :: cluster where
  "coordinator_2 =
     \<lparr>consistentHashing = ring_of_two_at_2,
      localNode = storeData 5 ''user:1'' (Json ''B'') 1
                    (handleIdentify ''node-1'' ''localhost:3001'' 0 (new_Node ''node-2'')),
      quorumSize = 2\<rparr>"

definition answers_of :: "cluster \<Rightarrow> node_id \<Rightarrow> read_reply" where
  "answers_of c t = Reply (handleReadRequest ''user:1'' (localNode c))"

definition later_answer :: "node_id \<Rightarrow> read_reply" where
  "later_answer t =
     Reply (Some \<lparr>rec_value = Json ''B'',
                  rec_metadata = Some \<lparr>version = 1, timestamp = 7, md_nodeId = ''node-2''\<rparr>\<rparr>)"




section \<open>Evaluating the hash\<close>

lemma replicate_numeral: "replicate (numeral k) x = x # replicate (pred_numeral k) x"
  by (simp add: numeral_eq_Suc)

lemmas sha_defs = add32_def rotr_def shr_def ch_def maj_def bsig0_def bsig1_def ssig0_def
  ssig1_def round_constants_def initial_state_def compress_def be_bytes8_def sha_pad_def
  sha256_words_def hex_digit_def hex8_def hash_def hex_value_def hashToPosition_def
  replicate_numeral

lemma position_node_1: "virtualPosition ''node-1'' 0 = 1949686669"
  by (simp add: sha_defs virtualPosition_def virtualNodeKey_def decimal.simps)

lemma position_node_2: "virtualPosition ''node-2'' 0 = 2518553376"
  by (simp add: sha_defs virtualPosition_def virtualNodeKey_def decimal.simps)

lemma position_node_94893: "virtualPosition ''node-94893'' 0 = 3747648692"
  by (simp add: sha_defs virtualPosition_def virtualNodeKey_def decimal.simps)

lemma position_node_147767: "virtualPosition ''node-147767'' 0 = 3747648692"
  by (simp add: sha_defs virtualPosition_def virtualNodeKey_def decimal.simps)

lemma position_user_1: "hashToPosition (hash ''user:1'') = 2881725563"
  by (simp add: sha_defs)

section \<open>Maps in insertion order\<close>

lemma map_of_map_set: "map_of (map_set m k v) k' = (if k' = k then Some v else map_of m k')"
  by (induction m) auto

lemma keys_map_set: "fst ` set (map_set m k v) = insert k (fst ` set m)"
  by (induction m) force+

lemma distinct_map_set: "distinct (map fst m) \<Longrightarrow> distinct (map fst (map_set m k v))"
  by (induction m) (auto simp: keys_map_set)

lemma map_set_new: "k \<notin> set (map fst m) \<Longrightarrow> map_set m k v = m @ [(k, v)]"
  by (induction m) auto

lemma filter_map_set:
  "k \<in> S \<Longrightarrow> filter (\<lambda>e. fst e \<notin> S) (map_set m k v) = filter (\<lambda>e. fst e \<notin> S) m"
  by (induction m) auto

lemma foldl_map_delete:
  "foldl (\<lambda>r i. map_delete r (g i)) r xs = filter (\<lambda>e. fst e \<notin> g ` set xs) r"
proof (induction xs arbitrary: r)
  case Nil
  then show ?case by simp
next
  case (Cons x xs)
  have "filter (\<lambda>e. fst e \<notin> g ` set xs) (map_delete r (g x))
        = filter (\<lambda>e. fst e \<notin> g ` set (x # xs)) r"
    by (induction r) (auto simp: map_delete_def)
  with Cons show ?case by simp
qed

lemma filter_foldl_map_set:
  "g ` set xs \<subseteq> S \<Longrightarrow>
   filter (\<lambda>e. fst e \<notin> S) (foldl (\<lambda>r i. map_set r (g i) n) r xs) = filter (\<lambda>e. fst e \<notin> S) r"
  by (induction xs arbitrary: r) (auto simp: filter_map_set)

lemma map_of_foldl_map_set:
  "map_of (foldl (\<lambda>r i. map_set r (g i) n) r xs) p =
     (if p \<in> g ` set xs then Some n else map_of r p)"
  by (induction xs arbitrary: r) (auto simp: map_of_map_set)

lemma keys_foldl_map_set:
  "fst ` set (foldl (\<lambda>r i. map_set r (g i) n) r xs) = g ` set xs \<union> fst ` set r"
  by (induction xs arbitrary: r) (simp_all add: keys_map_set)

lemma distinct_foldl_map_set:
  "distinct (map fst r) \<Longrightarrow> distinct (map fst (foldl (\<lambda>r i. map_set r (g i) n) r xs))"
  by (induction xs arbitrary: r) (auto simp: distinct_map_set)

section \<open>The collecting loop\<close>

lemma collect_capped_full: "m \<le> length acc \<Longrightarrow> collect_capped m acc xs = acc"
  by (cases xs) auto

lemma collect_capped_append:
  "collect_capped m acc (xs @ ys) = collect_capped m (collect_capped m acc xs) ys"
proof (induction xs arbitrary: acc)
  case Nil
  then show ?case by simp
next
  case (Cons x xs)
  show ?case
  proof (cases "length acc < m")
    case True
    then show ?thesis using Cons.IH by simp
  next
    case False
    then have "collect_capped m acc ys = acc"
      by (intro collect_capped_full) simp
    with False show ?thesis by simp
  qed
qed

lemma first_occurrences_from_cong:
  "set seen = set seen' \<Longrightarrow> first_occurrences_from seen xs = first_occurrences_from seen' xs"
proof (induction xs arbitrary: seen seen')
  case Nil
  show ?case by simp
next
  case (Cons x xs)
  have m: "x \<in> set seen \<longleftrightarrow> x \<in> set seen'"
    using Cons.prems by simp
  have a: "first_occurrences_from seen xs = first_occurrences_from seen' xs"
    using Cons.prems by (rule Cons.IH)
  have b: "first_occurrences_from (x # seen) xs = first_occurrences_from (x # seen') xs"
    by (rule Cons.IH) (simp add: Cons.prems)
  show ?case by (simp add: m a b)
qed

lemma foldl_set_add:
  "foldl set_add acc xs = acc @ first_occurrences_from acc xs"
proof (induction xs arbitrary: acc)
  case Nil
  then show ?case by simp
next
  case (Cons x xs)
  show ?case
  proof (cases "x \<in> set acc")
    case True
    then show ?thesis using Cons by (simp add: set_add_def)
  next
    case False
    have "first_occurrences_from (acc @ [x]) xs = first_occurrences_from (x # acc) xs"
      by (rule first_occurrences_from_cong) auto
    then show ?thesis using False Cons by (simp add: set_add_def)
  qed
qed

lemma length_set_add_le: "length (set_add acc x) \<le> Suc (length acc)"
  by (simp add: set_add_def)

lemma collect_capped_take:
  "length acc \<le> m \<Longrightarrow> collect_capped m acc xs = take m (foldl set_add acc xs)"
proof (induction xs arbitrary: acc)
  case Nil
  then show ?case by simp
next
  case (Cons x xs)
  show ?case
  proof (cases "length acc < m")
    case True
    then have "length (set_add acc x) \<le> m"
      using length_set_add_le [of acc x] by linarith
    then show ?thesis using True Cons.IH by simp
  next
    case False
    with Cons.prems have "length acc = m" by simp
    moreover have "foldl set_add acc (x # xs) = acc @ first_occurrences_from acc (x # xs)"
      by (rule foldl_set_add)
    ultimately show ?thesis by (simp del: foldl_Cons first_occurrences_from.simps)
  qed
qed

lemma collect_capped_first_occurrences:
  "collect_capped m [] xs = take m (first_occurrences xs)"
  by (simp add: collect_capped_take foldl_set_add first_occurrences_def)

lemma set_first_occurrences_from:
  "set (first_occurrences_from seen xs) = set xs - set seen"
  by (induction xs arbitrary: seen) auto

lemma distinct_first_occurrences_from: "distinct (first_occurrences_from seen xs)"
  by (induction xs arbitrary: seen) (auto simp: set_first_occurrences_from)

lemma length_first_occurrences: "length (first_occurrences xs) = card (set xs)"
proof -
  have "card (set (first_occurrences xs)) = length (first_occurrences xs)"
    unfolding first_occurrences_def by (rule distinct_card) (rule distinct_first_occurrences_from)
  then show ?thesis by (simp add: first_occurrences_def set_first_occurrences_from)
qed

lemma collect_step:
  "collectReplicas s i acc =
     (if length acc < quota s
      then collectReplicas s ((i + 1) mod length (sortedHashes s))
             (set_add acc (map_of (ring s) (sortedHashes s ! i)))
      else Some acc)"
  by (subst collectReplicas.simps) (simp add: quota_def)

lemma collect_unroll:
  assumes "i < length (sortedHashes s)" "i + k \<le> length (sortedHashes s)"
  shows "collectReplicas s i acc =
         collectReplicas s ((i + k) mod length (sortedHashes s))
           (collect_capped (quota s) acc (take k (drop i (owners s))))"
  using assms
proof (induction k arbitrary: i acc)
  case 0
  then show ?case by simp
next
  case (Suc k)
  let ?L = "length (sortedHashes s)"
  let ?o = "map_of (ring s) (sortedHashes s ! i)"
  have tk: "take (Suc k) (drop i (owners s)) = ?o # take k (drop (Suc i) (owners s))"
    using Suc.prems by (simp add: owners_def Cons_nth_drop_Suc [symmetric])
  show ?case
  proof (cases "length acc < quota s")
    case False
    then show ?thesis
      by (subst collect_step, subst (2) collect_step) (simp add: tk)
  next
    case True
    show ?thesis
    proof (cases "Suc i < ?L")
      case True
      have "collectReplicas s (Suc i) (set_add acc ?o) =
            collectReplicas s ((Suc i + k) mod ?L)
              (collect_capped (quota s) (set_add acc ?o) (take k (drop (Suc i) (owners s))))"
        using Suc.prems True by (intro Suc.IH) auto
      then show ?thesis
        using \<open>length acc < quota s\<close> True by (subst collect_step) (simp add: tk)
    next
      case False
      with Suc.prems have "k = 0" by simp
      with tk have "take (Suc k) (drop i (owners s)) = [?o]" by simp
      then show ?thesis
        using \<open>length acc < quota s\<close> \<open>k = 0\<close> by (subst collect_step) simp
    qed
  qed
qed

lemma collect_cycle:
  assumes "i < length (sortedHashes s)"
  shows "collectReplicas s i acc =
         collectReplicas s i (collect_capped (quota s) acc (rotate i (owners s)))"
proof -
  let ?L = "length (sortedHashes s)"
  have len: "length (owners s) = ?L" by (simp add: owners_def)
  have "collectReplicas s i acc =
        collectReplicas s ((i + (?L - i)) mod ?L)
          (collect_capped (quota s) acc (take (?L - i) (drop i (owners s))))"
    using assms by (intro collect_unroll) auto
  also have "\<dots> = collectReplicas s 0 (collect_capped (quota s) acc (drop i (owners s)))"
    using assms by (simp add: len)
  also have "\<dots> = collectReplicas s ((0 + i) mod ?L)
          (collect_capped (quota s) (collect_capped (quota s) acc (drop i (owners s)))
             (take i (drop 0 (owners s))))"
    using assms by (intro collect_unroll) auto
  also have "\<dots> = collectReplicas s i
          (collect_capped (quota s) acc (drop i (owners s) @ take i (owners s)))"
    using assms by (simp add: collect_capped_append)
  finally show ?thesis
    using assms by (simp add: rotate_drop_take len)
qed

lemma collect_returns:
  assumes i: "i < length (sortedHashes s)"
    and enough: "quota s \<le> card (set (owners s))"
  shows "collectReplicas s i [] = Some (take (quota s) (first_occurrences (rotate i (owners s))))"
proof -
  let ?r = "take (quota s) (first_occurrences (rotate i (owners s)))"
  have "length ?r = quota s"
    using enough by (simp add: length_first_occurrences)
  then have stop: "collectReplicas s i ?r = Some ?r"
    by (subst collect_step) simp
  have "collectReplicas s i [] = collectReplicas s i ?r"
    using collect_cycle [OF i, of "[]"] by (simp add: collect_capped_first_occurrences)
  with stop show ?thesis by simp
qed

lemma collect_diverges:
  assumes "set (owners s) \<subseteq> set acc" "length acc < quota s" "i < length (sortedHashes s)"
  shows "collectReplicas s i acc = None"
proof (rule ccontr)
  assume "collectReplicas s i acc \<noteq> None"
  then obtain r where r: "collectReplicas s i acc = Some r" by auto
  have "\<not> (set (owners s) \<subseteq> set acc \<and> length acc < quota s \<and> i < length (sortedHashes s))"
  proof (rule collectReplicas.raw_induct
      [where P = "\<lambda>s i acc y. \<not> (set (owners s) \<subseteq> set acc \<and> length acc < quota s
                                  \<and> i < length (sortedHashes s))", OF _ r])
    fix cr s' i' acc' r'
    assume IH: "\<And>a b c y. cr a b c = Some y \<Longrightarrow>
                 \<not> (set (owners a) \<subseteq> set c \<and> length c < quota a \<and> b < length (sortedHashes a))"
      and body: "(if length acc' < replicationFactor s' \<and> length acc' < length (nodes s')
                  then cr s' ((i' + 1) mod length (sortedHashes s'))
                         (set_add acc' (map_of (ring s') (sortedHashes s' ! i')))
                  else Some acc') = Some r'"
    show "\<not> (set (owners s') \<subseteq> set acc' \<and> length acc' < quota s' \<and> i' < length (sortedHashes s'))"
    proof
      assume a: "set (owners s') \<subseteq> set acc' \<and> length acc' < quota s' \<and> i' < length (sortedHashes s')"
      then have "map_of (ring s') (sortedHashes s' ! i') \<in> set acc'"
        by (auto simp: owners_def)
      then have same: "set_add acc' (map_of (ring s') (sortedHashes s' ! i')) = acc'"
        by (simp add: set_add_def)
      from a body have step: "cr s' ((i' + 1) mod length (sortedHashes s')) acc' = Some r'"
        by (simp add: same quota_def)
      have "(i' + 1) mod length (sortedHashes s') < length (sortedHashes s')"
        using a by (intro mod_less_divisor) auto
      with IH [OF step] a show False by simp
    qed
  qed
  with assms show False by simp
qed

lemma first_index_less: "first_index P xs = Some i \<Longrightarrow> i < length xs"
  by (induction xs arbitrary: i) (auto split: if_splits)

lemma first_index_None: "first_index P xs = None \<longleftrightarrow> (\<forall>x \<in> set xs. \<not> P x)"
  by (induction xs) auto

lemma find_first_index: "find P xs = map_option (\<lambda>i. xs ! i) (first_index P xs)"
  by (induction xs) (auto simp: option.map_comp comp_def)

lemma startIndex_less: "hs \<noteq> [] \<Longrightarrow> startIndex hs h < length hs"
  by (auto simp: startIndex_def first_index_less split: option.splits)

lemma sorted_split_at_first_index:
  "sorted xs \<Longrightarrow> first_index (\<lambda>p. (h::nat) \<le> p) xs = Some i \<Longrightarrow>
     filter (\<lambda>p. h \<le> p) xs = drop i xs \<and> filter (\<lambda>p. p < h) xs = take i xs"
proof (induction xs arbitrary: i)
  case Nil
  then show ?case by simp
next
  case (Cons x xs)
  show ?case
  proof (cases "h \<le> x")
    case True
    with Cons.prems have "i = 0" by simp
    moreover have "\<forall>y \<in> set (x # xs). h \<le> y"
      using True Cons.prems(1) by auto
    then have "filter (\<lambda>p. h \<le> p) (x # xs) = x # xs" "filter (\<lambda>p. p < h) (x # xs) = []"
      by (auto simp: filter_id_conv filter_empty_conv not_less simp del: filter.simps)
    ultimately show ?thesis by simp
  next
    case False
    with Cons.prems obtain j where j: "first_index (\<lambda>p. h \<le> p) xs = Some j" "i = Suc j"
      by auto
    from Cons.prems(1) have "sorted xs" by simp
    from Cons.IH [OF this j(1)] False j(2) show ?thesis by simp
  qed
qed

lemma rotate_startIndex:
  assumes "sorted hs"
  shows "rotate (startIndex hs h) hs = filter (\<lambda>p. h \<le> p) hs @ filter (\<lambda>p. p < h) hs"
proof (cases "first_index (\<lambda>p. h \<le> p) hs")
  case None
  then have "\<forall>p \<in> set hs. p < h"
    by (auto simp: first_index_None)
  then have "filter (\<lambda>p. h \<le> p) hs = []" "filter (\<lambda>p. p < h) hs = hs"
    by (auto simp: filter_empty_conv filter_id_conv)
  with None show ?thesis by (simp add: startIndex_def)
next
  case (Some i)
  then have "i < length hs" by (rule first_index_less)
  then show ?thesis
    using sorted_split_at_first_index [OF assms Some] Some
    by (simp add: startIndex_def rotate_drop_take)
qed

lemma clockwise_from_sort:
  "clockwise_from h positions = rotate (startIndex (sort positions) h) (sort positions)"
  by (simp add: clockwise_from_def rotate_startIndex filter_sort)

lemma map_Some_the: "None \<notin> set xs \<Longrightarrow> map Some (map the xs) = xs"
  by (induction xs) auto

lemma hd_first_occurrences: "xs \<noteq> [] \<Longrightarrow> hd (first_occurrences xs) = hd xs"
  by (cases xs) (simp_all add: first_occurrences_def)

lemma first_occurrences_Nil: "first_occurrences xs = [] \<longleftrightarrow> xs = []"
  by (cases xs) (simp_all add: first_occurrences_def)

lemma getNode_clockwise:
  assumes sync: "sortedHashes s = sort (map_keys (ring s))" and ne: "sortedHashes s \<noteq> []"
  shows "getNode key s =
         map_of (ring s) (hd (clockwise_from (hashToPosition (hash key)) (map_keys (ring s))))"
proof -
  let ?h = "hashToPosition (hash key)"
  let ?hs = "sortedHashes s"
  have srt: "sorted ?hs" by (simp add: sync)
  show ?thesis
  proof (cases "first_index (\<lambda>p. ?h \<le> p) ?hs")
    case None
    then have "find (\<lambda>p. ?h \<le> p) ?hs = None" by (simp add: find_first_index)
    moreover have "rotate (startIndex ?hs ?h) ?hs = ?hs"
      using None by (simp add: startIndex_def)
    ultimately show ?thesis
      using ne by (simp add: getNode_def clockwise_from_sort sync [symmetric])
  next
    case (Some i)
    then have i: "i < length ?hs" by (rule first_index_less)
    have "find (\<lambda>p. ?h \<le> p) ?hs = Some (?hs ! i)"
      using Some by (simp add: find_first_index)
    moreover have "hd (rotate (startIndex ?hs ?h) ?hs) = ?hs ! i"
      using Some i by (simp add: startIndex_def rotate_drop_take hd_append hd_drop_conv_nth)
    ultimately show ?thesis
      using ne by (simp add: getNode_def clockwise_from_sort sync [symmetric])
  qed
qed

section \<open>The example rings, evaluated\<close>

lemma ring_of_node_1_eq:
  "ring_of_node_1 =
     \<lparr>replicationFactor = 3, virtualNodes = 1,
      ring = [(1949686669, ''node-1'')],
      sortedHashes = [1949686669],
      nodes = [(''node-1'', localhost_3001)]\<rparr>"
  by (simp add: ring_of_node_1_def addNode_def new_ConsistentHashing_def map_keys_def
      position_node_1)

lemma ring_of_two_eq:
  "ring_of_two =
     \<lparr>replicationFactor = 3, virtualNodes = 1,
      ring = [(1949686669, ''node-1''), (2518553376, ''node-2'')],
      sortedHashes = [1949686669, 2518553376],
      nodes = [(''node-1'', localhost_3001), (''node-2'', localhost_3002)]\<rparr>"
  by (simp add: ring_of_two_def ring_of_node_1_eq addNode_def map_keys_def position_node_2)

lemma ring_of_one_eq:
  "ring_of_one =
     \<lparr>replicationFactor = 3, virtualNodes = 1,
      ring = [(3747648692, ''node-94893'')],
      sortedHashes = [3747648692],
      nodes = [(''node-94893'', localhost_3001)]\<rparr>"
  by (simp add: ring_of_one_def addNode_def new_ConsistentHashing_def map_keys_def
      position_node_94893)

lemma colliding_ring_eq:
  "colliding_ring =
     \<lparr>replicationFactor = 3, virtualNodes = 1,
      ring = [(3747648692, ''node-147767'')],
      sortedHashes = [3747648692],
      nodes = [(''node-94893'', localhost_3001), (''node-147767'', localhost_3002)]\<rparr>"
  by (simp add: colliding_ring_def ring_of_one_eq addNode_def map_keys_def position_node_147767)

section \<open>The ring after \<open>addNode\<close>, and what the loop returns\<close>

lemma ring_after_addNode:
  "map_of (ring (addNode nodeId info s)) p =
     (if p \<in> virtualPosition nodeId ` {..<virtualNodes s} then Some nodeId
      else map_of (ring s) p)"
  by (simp add: addNode_def Let_def map_of_foldl_map_set lessThan_atLeast0)

text \<open>
  The constructor, \<open>addNode\<close> and \<open>removeNode\<close> leave the sorted position list in step
  with the ring map.
\<close>

lemma sync_new:
  "sortedHashes (new_ConsistentHashing r v) = sort (map_keys (ring (new_ConsistentHashing r v)))"
  by (simp add: new_ConsistentHashing_def map_keys_def)

lemma sync_addNode:
  "sortedHashes (addNode nodeId info s) = sort (map_keys (ring (addNode nodeId info s)))"
  by (simp add: addNode_def Let_def)

lemma sync_removeNode:
  "sortedHashes s = sort (map_keys (ring s)) \<Longrightarrow>
   sortedHashes (snd (removeNode nodeId s)) = sort (map_keys (ring (snd (removeNode nodeId s))))"
  by (simp add: removeNode_def Let_def)

lemma owns_after_addNode:
  assumes "0 < virtualNodes s"
  shows "nodeId \<in> snd ` set (ring (addNode nodeId info s))"
proof -
  have "map_of (ring (addNode nodeId info s)) (virtualPosition nodeId 0) = Some nodeId"
    using assms by (simp add: ring_after_addNode)
  then have "(virtualPosition nodeId 0, nodeId) \<in> set (ring (addNode nodeId info s))"
    by (rule map_of_SomeD)
  then show ?thesis by force
qed

lemma distinct_ring_addNode:
  "distinct (map_keys (ring s)) \<Longrightarrow> distinct (map_keys (ring (addNode nodeId info s)))"
  by (simp add: addNode_def Let_def map_keys_def distinct_foldl_map_set)

lemma distinct_nodes_addNode:
  "distinct (map_keys (nodes s)) \<Longrightarrow> distinct (map_keys (nodes (addNode nodeId info s)))"
  by (simp add: addNode_def Let_def map_keys_def distinct_map_set)

lemma keeps_owner_addNode:
  assumes d: "distinct (map_keys (ring s))"
    and own: "(p, n) \<in> set (ring s)"
    and free: "p \<notin> virtualPosition nodeId ` {..<virtualNodes s}"
  shows "(p, n) \<in> set (ring (addNode nodeId info s))"
proof -
  from d own have "map_of (ring s) p = Some n"
    by (simp add: map_keys_def)
  with free have "map_of (ring (addNode nodeId info s)) p = Some n"
    by (simp add: ring_after_addNode)
  then show ?thesis by (rule map_of_SomeD)
qed

text \<open>
  Where the ring map has at least \<open>min R N\<close> distinct owners, \<open>getReplicaNodes\<close> returns
  that many pairwise distinct node ids: the owners of the positions walked clockwise from
  the key's position, in the order of their first occurrence, the first being the primary
  node \<open>getNode\<close> finds. Where the ring map is not empty and has fewer owners, the loop
  never returns.
\<close>

lemma replicas_walk:
  assumes sync: "sortedHashes s = sort (map_keys (ring s))"
    and dr: "distinct (map_keys (ring s))"
    and enough: "min (replicationFactor s) (length (nodes s)) \<le> card (snd ` set (ring s))"
  shows "\<exists>ids. getReplicaNodes key s = Some (map Some ids)
           \<and> length ids = min (replicationFactor s) (length (nodes s))
           \<and> distinct ids
           \<and> map Some ids =
               take (min (replicationFactor s) (length (nodes s)))
                 (first_occurrences (map (map_of (ring s))
                    (clockwise_from (hashToPosition (hash key)) (map_keys (ring s)))))
           \<and> getNode key s =
               map_of (ring s) (hd (clockwise_from (hashToPosition (hash key)) (map_keys (ring s))))
           \<and> (ids \<noteq> [] \<longrightarrow> getNode key s = Some (hd ids))"
proof (cases "ring s = []")
  case True
  then have hs: "sortedHashes s = []"
    by (simp add: sync map_keys_def)
  from True enough have q: "min (replicationFactor s) (length (nodes s)) = 0"
    by simp
  have "getReplicaNodes key s = Some (map Some [])"
    by (simp add: getReplicaNodes_def hs)
  moreover have "getNode key s =
      map_of (ring s) (hd (clockwise_from (hashToPosition (hash key)) (map_keys (ring s))))"
    by (simp add: getNode_def hs True)
  ultimately show ?thesis
    using q by (intro exI [of _ "[]"]) simp
next
  case False
  let ?h = "hashToPosition (hash key)"
  let ?hs = "sortedHashes s"
  let ?i = "startIndex ?hs ?h"
  let ?walk = "rotate ?i (owners s)"
  let ?res = "take (quota s) (first_occurrences ?walk)"
  have "length ?hs = length (ring s)"
    by (simp add: sync map_keys_def)
  with False have ne: "?hs \<noteq> []"
    by (metis length_0_conv)
  then have i: "?i < length ?hs" by (rule startIndex_less)
  have set_owners: "set (owners s) = Some ` snd ` set (ring s)"
    using dr by (force simp: owners_def sync map_keys_def image_iff)
  have "card (set (owners s)) = card (snd ` set (ring s))"
    unfolding set_owners by (rule card_image) simp
  with enough have enough': "quota s \<le> card (set (owners s))"
    by (simp add: quota_def)
  have run: "getReplicaNodes key s = Some ?res"
    using ne collect_returns [OF i enough'] by (simp add: getReplicaNodes_def)
  have "set ?res \<subseteq> set (owners s)"
    using set_take_subset [of "quota s" "first_occurrences ?walk"]
    by (auto simp: first_occurrences_def set_first_occurrences_from)
  then have noNone: "None \<notin> set ?res"
    by (auto simp: set_owners)
  define ids where "ids = map the ?res"
  have ids: "map Some ids = ?res"
    unfolding ids_def using noNone by (rule map_Some_the)
  have len: "length ids = quota s"
    using enough' by (simp add: ids_def length_first_occurrences)
  have "distinct ?res"
    by (simp add: first_occurrences_def distinct_first_occurrences_from)
  then have dist: "distinct ids"
    unfolding ids [symmetric] by (simp add: distinct_map)
  have walk: "?walk = map (map_of (ring s)) (clockwise_from ?h (map_keys (ring s)))"
    by (simp add: owners_def clockwise_from_sort sync rotate_map)
  have prim: "getNode key s = map_of (ring s) (hd (clockwise_from ?h (map_keys (ring s))))"
    using sync ne by (rule getNode_clockwise)
  have cw_ne: "clockwise_from ?h (map_keys (ring s)) \<noteq> []"
    using ne by (simp add: clockwise_from_sort sync)
  have hd_ids: "getNode key s = Some (hd ids)" if "ids \<noteq> []"
  proof -
    from that len have q: "0 < quota s" by (cases ids) auto
    have "Some (hd ids) = hd (map Some ids)"
      using that by (simp add: hd_map)
    also have "\<dots> = hd (first_occurrences ?walk)"
      using q by (simp add: ids)
    also have "\<dots> = hd ?walk"
      using cw_ne by (intro hd_first_occurrences) (simp add: walk)
    also have "\<dots> = map_of (ring s) (hd (clockwise_from ?h (map_keys (ring s))))"
      using cw_ne by (simp add: walk hd_map)
    finally show ?thesis by (simp add: prim)
  qed
  show ?thesis
    using run ids len dist walk prim hd_ids
    by (intro exI [of _ ids]) (simp add: quota_def)
qed

lemma replicas_never_return:
  assumes ne: "sortedHashes s \<noteq> []"
    and few: "card (set (owners s)) < min (replicationFactor s) (length (nodes s))"
  shows "getReplicaNodes key s = None"
proof -
  let ?i = "startIndex (sortedHashes s) (hashToPosition (hash key))"
  let ?walk = "rotate ?i (owners s)"
  let ?acc = "collect_capped (quota s) [] ?walk"
  from ne have i: "?i < length (sortedHashes s)" by (rule startIndex_less)
  have acc: "?acc = take (quota s) (first_occurrences ?walk)"
    by (rule collect_capped_first_occurrences)
  have len: "length (first_occurrences ?walk) = card (set (owners s))"
    by (simp add: length_first_occurrences)
  with few have "length (first_occurrences ?walk) \<le> quota s"
    by (simp add: quota_def)
  then have whole: "?acc = first_occurrences ?walk"
    by (simp add: acc)
  have 1: "set (owners s) \<subseteq> set ?acc"
    by (simp add: whole first_occurrences_def set_first_occurrences_from)
  from few len have "length (first_occurrences ?walk) < quota s"
    by (simp add: quota_def)
  then have 2: "length ?acc < quota s"
    by (simp only: whole)
  have "collectReplicas s ?i [] = collectReplicas s ?i ?acc"
    using i by (rule collect_cycle)
  also have "\<dots> = None"
    using 1 2 i by (rule collect_diverges)
  finally show ?thesis
    using ne by (simp add: getReplicaNodes_def)
qed

lemma set_clockwise_from: "set (clockwise_from h ps) = set ps"
  by (auto simp: clockwise_from_def)

lemma single_node_replicas:
  assumes r: "0 < r" and v: "0 < v"
  shows "getReplicaNodes key (addNode n info (new_ConsistentHashing r v)) = Some [Some n]"
proof -
  let ?s = "addNode n info (new_ConsistentHashing r v)"
  have look: "map_of (ring ?s) p =
      (if p \<in> virtualPosition n ` {..<v} then Some n else None)" for p
    using ring_after_addNode [of n info "new_ConsistentHashing r v" p]
    by (simp add: new_ConsistentHashing_def)
  have nodes: "nodes ?s = [(n, info)]"
    by (simp add: addNode_def new_ConsistentHashing_def Let_def)
  have rf: "replicationFactor ?s = r"
    by (simp add: addNode_def new_ConsistentHashing_def Let_def)
  have 1: "sortedHashes ?s = sort (map_keys (ring ?s))"
    by (simp add: addNode_def Let_def)
  have 2: "distinct (map_keys (ring ?s))"
    by (simp add: addNode_def Let_def new_ConsistentHashing_def map_keys_def distinct_foldl_map_set)
  have "map_of (ring ?s) (virtualPosition n 0) = Some n"
    using v by (simp add: look)
  then have "(virtualPosition n 0, n) \<in> set (ring ?s)"
    by (rule map_of_SomeD)
  then have "n \<in> snd ` set (ring ?s)"
    by force
  then have "0 < card (snd ` set (ring ?s))"
    by (auto simp: card_gt_0_iff)
  then have 3: "min (replicationFactor ?s) (length (nodes ?s)) \<le> card (snd ` set (ring ?s))"
    by (simp add: nodes)
  from replicas_walk [OF 1 2 3, of key] obtain ids where
    run: "getReplicaNodes key ?s = Some (map Some ids)"
    and len: "length ids = min (replicationFactor ?s) (length (nodes ?s))"
    and walk: "map Some ids =
       take (min (replicationFactor ?s) (length (nodes ?s)))
         (first_occurrences (map (map_of (ring ?s))
            (clockwise_from (hashToPosition (hash key)) (map_keys (ring ?s)))))"
    by blast
  have "set (map Some ids) \<subseteq> map_of (ring ?s) ` set (map_keys (ring ?s))"
    unfolding walk
    using set_take_subset [of "min (replicationFactor ?s) (length (nodes ?s))"
        "first_occurrences (map (map_of (ring ?s))
            (clockwise_from (hashToPosition (hash key)) (map_keys (ring ?s))))"]
    by (auto simp: first_occurrences_def set_first_occurrences_from set_clockwise_from)
  moreover have "map_of (ring ?s) p = Some n" if "p \<in> set (map_keys (ring ?s))" for p
  proof -
    from that have "map_of (ring ?s) p \<noteq> None"
      by (simp add: map_keys_def map_of_eq_None_iff)
    then show ?thesis by (simp add: look split: if_splits)
  qed
  ultimately have all: "set ids \<subseteq> {n}"
    by auto
  from len r have "length ids = 1"
    by (simp add: rf nodes)
  then obtain x where "ids = [x]"
    by (cases ids) auto
  with all run show ?thesis by simp
qed

lemma seed_cluster_replicas:
  "getReplicaNodes key (consistentHashing seed_cluster) = Some [Some ''node-1'']"
  by (simp add: seed_cluster_def createNode_def single_node_replicas)

lemma seed_cluster_node: "localNode seed_cluster = new_Node ''node-1''"
  and seed_cluster_quorum: "quorumSize seed_cluster = 1"
  by (simp_all add: seed_cluster_def createNode_def)

lemma ring_of_two_user_1:
  "getReplicaNodes ''user:1'' ring_of_two = Some [Some ''node-1'', Some ''node-2'']"
  by (simp add: getReplicaNodes_def ring_of_two_eq startIndex_def position_user_1
      collectReplicas.simps set_add_def)

lemma ring_of_two_at_2_eq:
  "ring_of_two_at_2 =
     \<lparr>replicationFactor = 3, virtualNodes = 1,
      ring = [(2518553376, ''node-2''), (1949686669, ''node-1'')],
      sortedHashes = [1949686669, 2518553376],
      nodes = [(''node-2'', localhost_3002), (''node-1'', localhost_3001)]\<rparr>"
  by (simp add: ring_of_two_at_2_def addNode_def new_ConsistentHashing_def map_keys_def
      position_node_1 position_node_2)

lemma ring_of_two_at_2_user_1:
  "getReplicaNodes ''user:1'' ring_of_two_at_2 = Some [Some ''node-1'', Some ''node-2'']"
  by (simp add: getReplicaNodes_def ring_of_two_at_2_eq startIndex_def position_user_1
      collectReplicas.simps set_add_def)

section \<open>Claims about the ring\<close>

text \<open>
  Claim C7, as the code has it: when a virtual position inserted by \<open>addNode\<close> is already
  in the ring map, the node being added wins. After \<open>addNode\<close>, every virtual position of
  the added node maps to it, whatever was stored there, and every other position keeps
  its node; the result is a function of the ring and the node id, so it is deterministic.
\<close>

theorem addNode_newcomer_wins:
  "map_of (ring (addNode nodeId info s)) p =
     (if p \<in> virtualPosition nodeId ` {..<virtualNodes s} then Some nodeId
      else map_of (ring s) p)"
  by (rule ring_after_addNode)

text \<open>
  Claim C7 as stated fails: position 3747648692 holds \<open>node-94893\<close>; adding
  \<open>node-147767\<close>, whose virtual position is the same, replaces the entry.
\<close>

theorem collision_existing_entry_replaced:
  "map_of (ring ring_of_one) 3747648692 = Some ''node-94893''
   \<and> virtualPosition ''node-147767'' 0 = 3747648692
   \<and> map_of (ring (addNode ''node-147767'' localhost_3002 ring_of_one)) 3747648692
       = Some ''node-147767''"
  using colliding_ring_eq
  by (simp add: ring_of_one_eq position_node_147767 colliding_ring_def)

text \<open>
  Claim C6, amended: when the sorted position list is in step with the ring map, node
  \<open>x\<close> is not in the node table and none of its virtual positions is a key of the ring
  map, \<open>addNode x\<close> followed by \<open>removeNode x\<close> returns \<open>true\<close> and leaves the ring
  (ring map, sorted position list, node table, configuration) exactly as it was.
\<close>

theorem add_remove_roundtrip:
  assumes sync: "sortedHashes s = sort (map_keys (ring s))"
    and fresh: "\<not> map_has (nodes s) x"
    and free: "\<forall>i < virtualNodes s. \<not> map_has (ring s) (virtualPosition x i)"
  shows "removeNode x (addNode x info s) = (True, s)"
proof -
  let ?S = "virtualPosition x ` set [0..<virtualNodes s]"
  let ?r1 = "foldl (\<lambda>r i. map_set r (virtualPosition x i) x) (ring s) [0..<virtualNodes s]"
  have keep: "filter (\<lambda>e. fst e \<notin> ?S) (ring s) = ring s"
    using free by (force simp: map_has_def filter_id_conv)
  have ring_back: "foldl (\<lambda>r i. map_delete r (virtualPosition x i)) ?r1 [0..<virtualNodes s] = ring s"
    using keep by (simp add: foldl_map_delete filter_foldl_map_set)
  have nodes_back: "map_delete (map_set (nodes s) x info) x = nodes s"
    using fresh by (force simp: map_has_def map_set_new map_delete_def filter_id_conv)
  have has: "map_has (map_set (nodes s) x info) x"
    by (simp add: map_has_def keys_map_set)
  show ?thesis
    using has by (simp add: removeNode_def addNode_def Let_def ring_back nodes_back sync [symmetric])
qed

text \<open>The amended claim C6 at the ring of \<open>node-1\<close> and the new node \<open>node-2\<close>.\<close>

theorem add_remove_roundtrip_witness:
  "removeNode ''node-2'' (addNode ''node-2'' localhost_3002 ring_of_node_1)
   = (True, ring_of_node_1)"
proof -
  have 1: "sortedHashes ring_of_node_1 = sort (map_keys (ring ring_of_node_1))"
    by (simp add: ring_of_node_1_eq map_keys_def)
  have 2: "\<not> map_has (nodes ring_of_node_1) ''node-2''"
    by (simp add: ring_of_node_1_eq map_has_def)
  have 3: "\<forall>i < virtualNodes ring_of_node_1.
             \<not> map_has (ring ring_of_node_1) (virtualPosition ''node-2'' i)"
    by (simp add: ring_of_node_1_eq map_has_def position_node_2)
  show ?thesis
    by (rule add_remove_roundtrip [OF 1 2 3])
qed

text \<open>
  Claim C6 as stated fails when a virtual position collides: \<open>node-147767\<close> is not in
  the ring of \<open>node-94893\<close>, its position is the one \<open>node-94893\<close> holds, and after adding
  and removing it the ring map is empty.
\<close>

theorem add_remove_collision_counterexample:
  "\<not> map_has (nodes ring_of_one) ''node-147767''
   \<and> virtualPosition ''node-147767'' 0 = 3747648692
   \<and> ring ring_of_one = [(3747648692, ''node-94893'')]
   \<and> ring (snd (removeNode ''node-147767'' (addNode ''node-147767'' localhost_3002 ring_of_one))) = []
   \<and> snd (removeNode ''node-147767'' (addNode ''node-147767'' localhost_3002 ring_of_one))
       \<noteq> ring_of_one"
proof -
  have "removeNode ''node-147767'' colliding_ring =
        (True, \<lparr>replicationFactor = 3, virtualNodes = 1, ring = [], sortedHashes = [],
                nodes = [(''node-94893'', localhost_3001)]\<rparr>)"
    by (simp add: colliding_ring_eq removeNode_def map_has_def map_delete_def map_keys_def
        position_node_147767)
  then show ?thesis
    unfolding colliding_ring_def [symmetric]
    by (simp add: ring_of_one_eq map_has_def position_node_147767)
qed

text \<open>
  Claim C4 against the code: in the ring with one virtual node per node to which
  \<open>node-94893\<close> and then \<open>node-147767\<close> are added, the node table has two nodes and the
  ring map one position, owned by \<open>node-147767\<close>. With replication factor 3 the loop of
  \<open>getReplicaNodes\<close> waits for two distinct owners, finds one, and never returns.
\<close>

theorem replicas_loop_never_returns:
  "nodes colliding_ring \<noteq> []
   \<and> replicationFactor colliding_ring = 3
   \<and> length (nodes colliding_ring) = 2
   \<and> getReplicaNodes ''user:1'' colliding_ring = None"
proof -
  have "sortedHashes colliding_ring \<noteq> []"
    by (simp add: colliding_ring_eq)
  moreover have "card (set (owners colliding_ring))
      < min (replicationFactor colliding_ring) (length (nodes colliding_ring))"
    by (simp add: colliding_ring_eq owners_def)
  ultimately have "getReplicaNodes ''user:1'' colliding_ring = None"
    by (rule replicas_never_return)
  then show ?thesis
    by (simp add: colliding_ring_eq)
qed

section \<open>Claims about failure detection\<close>

lemma map_has_map_delete: "map_has (map_delete m k) f \<longleftrightarrow> map_has m f \<and> f \<noteq> k"
  by (auto simp: map_has_def map_delete_def)

lemma check_keeps_absent:
  "\<not> map_has (peers n) f \<and> \<not> map_has (lastHeartbeat n) f \<Longrightarrow>
   \<not> map_has (peers (foldl (\<lambda>n' e. if now - snd e > failureThreshold
                                     then handleNodeFailure (fst e) n' else n') n es)) f
   \<and> \<not> map_has (lastHeartbeat (foldl (\<lambda>n' e. if now - snd e > failureThreshold
                                     then handleNodeFailure (fst e) n' else n') n es)) f"
  by (induction es arbitrary: n) (auto simp: handleNodeFailure_def map_has_map_delete)

lemma check_removes:
  "(f, seen) \<in> set es \<Longrightarrow> now - seen > failureThreshold \<Longrightarrow>
   \<not> map_has (peers (foldl (\<lambda>n' e. if now - snd e > failureThreshold
                                     then handleNodeFailure (fst e) n' else n') n es)) f
   \<and> \<not> map_has (lastHeartbeat (foldl (\<lambda>n' e. if now - snd e > failureThreshold
                                     then handleNodeFailure (fst e) n' else n') n es)) f"
proof (induction es arbitrary: n)
  case Nil
  then show ?case by simp
next
  case (Cons e es)
  show ?case
  proof (cases "e = (f, seen)")
    case True
    have "\<not> map_has (peers (handleNodeFailure f n)) f
          \<and> \<not> map_has (lastHeartbeat (handleNodeFailure f n)) f"
      by (simp add: handleNodeFailure_def map_has_map_delete)
    from check_keeps_absent [OF this] True Cons.prems(2) show ?thesis by simp
  next
    case False
    with Cons.prems have "(f, seen) \<in> set es" by simp
    from Cons.IH [OF this Cons.prems(2)] show ?thesis by simp
  qed
qed

text \<open>
  Claim C1 against the code: when the detector of a node declares a peer \<open>f\<close> failed
  (its last heartbeat is older than the threshold), \<open>f\<close> leaves the peer table and the
  heartbeat table, and the ring stays as it was. So \<open>getReplicaNodes\<close> answers for every
  key what it answered before, and a PUT coordinated afterwards has the same replica list:
  a failed peer that was in it stays in it.
\<close>

theorem failed_peer_stays_in_ring:
  assumes stale: "map_of (lastHeartbeat (localNode c)) f = Some seen"
    and late: "now - seen > failureThreshold"
  shows "\<not> map_has (peers (localNode (heartbeatTimer now c))) f
       \<and> \<not> map_has (lastHeartbeat (localNode (heartbeatTimer now c))) f
       \<and> consistentHashing (heartbeatTimer now c) = consistentHashing c
       \<and> getReplicaNodes key (consistentHashing (heartbeatTimer now c))
           = getReplicaNodes key (consistentHashing c)
       \<and> (case put key val t storeT acked (heartbeatTimer now c) of
             Returns (r, sent, c') \<Rightarrow>
               getReplicaNodes key (consistentHashing c) = Some (replicaNodes r)
           | Throws e \<Rightarrow> False
           | Diverges \<Rightarrow> getReplicaNodes key (consistentHashing c) = None)"
proof -
  from stale have "(f, seen) \<in> set (lastHeartbeat (localNode c))"
    by (rule map_of_SomeD)
  from check_removes [OF this late]
  have gone: "\<not> map_has (peers (localNode (heartbeatTimer now c))) f
       \<and> \<not> map_has (lastHeartbeat (localNode (heartbeatTimer now c))) f"
    by (simp add: heartbeatTimer_def checkForFailedNodes_def)
  have same: "consistentHashing (heartbeatTimer now c) = consistentHashing c"
    by (simp add: heartbeatTimer_def)
  have "case put key val t storeT acked (heartbeatTimer now c) of
             Returns (r, sent, c') \<Rightarrow>
               getReplicaNodes key (consistentHashing c) = Some (replicaNodes r)
           | Throws e \<Rightarrow> False
           | Diverges \<Rightarrow> getReplicaNodes key (consistentHashing c) = None"
    by (simp add: put_def same Let_def split: option.splits)
  with gone same show ?thesis by simp
qed

text \<open>
  Claim C1 at the cluster of \<open>node-1\<close> with the peer \<open>node-2\<close> last heard at time 0: at
  time 20000 the detector drops \<open>node-2\<close>, and the PUT of \<open>user:1\<close> that follows still
  lists \<open>node-2\<close> among its replicas.
\<close>

theorem failed_peer_stays_in_ring_witness:
  "map_of (lastHeartbeat (localNode cluster_linked)) ''node-2'' = Some 0
   \<and> 20000 - 0 > failureThreshold
   \<and> \<not> map_has (peers (localNode (heartbeatTimer 20000 cluster_linked))) ''node-2''
   \<and> \<not> map_has (lastHeartbeat (localNode (heartbeatTimer 20000 cluster_linked))) ''node-2''
   \<and> (\<exists>r sent c'.
         put ''user:1'' (Json ''Jane'') 20001 20001 (\<lambda>t. True) (heartbeatTimer 20000 cluster_linked)
           = Returns (r, sent, c')
         \<and> replicaNodes r = [Some ''node-1'', Some ''node-2''])"
proof -
  have a: "map_of (lastHeartbeat (localNode cluster_linked)) ''node-2'' = Some 0"
    by (simp add: cluster_linked_def handleIdentify_def new_Node_def)
  have b: "20000 - 0 > failureThreshold"
    by (simp add: failureThreshold_def)
  have ring: "getReplicaNodes ''user:1'' (consistentHashing cluster_linked)
               = Some [Some ''node-1'', Some ''node-2'']"
    by (simp add: cluster_linked_def ring_of_two_user_1)
  from failed_peer_stays_in_ring [OF a b, of "''user:1''" "Json ''Jane''" 20001 20001 "\<lambda>t. True"]
  show ?thesis
    using a b by (auto simp: ring split: outcome.splits)
qed

section \<open>Claims about the local store and PUT\<close>

lemma handleReplication_rule:
  "handleReplication msg now n =
     (if map_of (metadata n) (msg_key msg) = None
         \<or> (\<exists>existing. map_of (metadata n) (msg_key msg) = Some existing
               \<and> timestamp existing < timestamp (msg_metadata msg))
      then storeData now (msg_key msg) (msg_value msg) (version (msg_metadata msg)) n
      else n)"
  by (auto simp: handleReplication_def split: option.splits)

lemma replicateToPeers_targets:
  "map (wr_nodeId \<circ> snd) (replicateToPeers n key val md acked targets) =
     filter (\<lambda>t. t \<noteq> Some (this_nodeId n) \<and> has_link n t) targets"
  by (induction targets) (auto simp: has_link_def split: option.splits)

lemma replicateToPeers_outcomes:
  "(e, w) \<in> set (replicateToPeers n key val md acked targets) \<Longrightarrow>
     wr_success w \<and> wr_error w = None \<or> \<not> wr_success w \<and> wr_error w = Some ''timeout''"
  by (induction targets) (auto split: option.splits if_splits)

text \<open>
  Claim C2 against the code: a PUT on a one-node cluster with replication factor 1 reads
  the clock as 1000 for its metadata and returns \<open>success: true\<close> with one successful write
  and quorum 1, while \<open>storeData\<close> reads the clock again (1001) and stores that timestamp.
  A peer that receives the \<open>replicate_data\<close> message of that PUT at its own clock reading
  1004 stores 1004. No replica holds the timestamp 1000 of the PUT's metadata.
\<close>

theorem put_restamps_local_write:
  "put ''user:1'' (Json ''John'') 1000 1001 (\<lambda>t. False) seed_cluster =
     Returns
       (\<lparr>success = True, put_key = ''user:1'', replicaNodes = [Some ''node-1''],
         successfulWrites = 1, put_quorumSize = 1, quorumAchieved = True,
         writeResults = [\<lparr>wr_nodeId = Some ''node-1'', wr_success = True, wr_error = None\<rparr>]\<rparr>,
        [],
        seed_cluster\<lparr>localNode :=
          storeData 1001 ''user:1'' (Json ''John'') 1 (new_Node ''node-1'')\<rparr>)
   \<and> map_of (metadata (storeData 1001 ''user:1'' (Json ''John'') 1 (new_Node ''node-1''))) ''user:1''
       = Some \<lparr>version = 1, timestamp = 1001, md_nodeId = ''node-1''\<rparr>
   \<and> map_of (metadata (handleReplication
         \<lparr>msg_key = ''user:1'', msg_value = Json ''John'',
          msg_metadata = \<lparr>version = 1, timestamp = 1000, md_nodeId = ''node-1''\<rparr>\<rparr>
         1004 (new_Node ''node-2''))) ''user:1''
       = Some \<lparr>version = 1, timestamp = 1004, md_nodeId = ''node-2''\<rparr>"
  by (simp add: put_def Let_def seed_cluster_replicas seed_cluster_node seed_cluster_quorum
      storeData_def new_Node_def handleReplication_def)

text \<open>
  Claim C3 against the code: a replica receives the write \<open>v1\<close> with timestamp 100 at its
  clock reading 500, then the write \<open>v2\<close> with timestamp 200 at its clock reading 600. The
  first is stored with the timestamp 500 of the replica's clock; the second, compared with
  500, is skipped. The local read returns \<open>v1\<close>, not the write with the greatest timestamp.
\<close>

theorem replication_keeps_older_write:
  "getData ''k'' (handleReplication write_v2 600 (handleReplication write_v1 500 (new_Node ''node-2'')))
     = Some \<lparr>rec_value = Json ''v1'',
              rec_metadata = Some \<lparr>version = 1, timestamp = 500, md_nodeId = ''node-2''\<rparr>\<rparr>"
  by (simp add: handleReplication_def storeData_def new_Node_def write_v1_def write_v2_def
      getData_def)

lemma has_link_storeData: "has_link (storeData now key val ver n) t = has_link n t"
  by (cases t) (simp_all add: has_link_def storeData_def)

lemma replicateToPeers_no_not_connected:
  "(e, w) \<in> set (replicateToPeers n key val md acked targets) \<Longrightarrow>
     wr_error w \<noteq> Some ''not_connected''"
  using replicateToPeers_outcomes [of e w n key val md acked targets] by auto

text \<open>
  Claim C8 against the code: the per-replica results of a PUT hold the local write, when
  the coordinator is a replica, and after it one result for every other target that has a
  peer entry with a socket, in the order of the replica list. A target without one gets no
  result, and no result carries the error \<open>not_connected\<close>.
\<close>

theorem put_results_skip_unlinked:
  assumes "put key val now storeNow acked c = Returns (r, sent, c')"
  shows "map wr_nodeId (writeResults r) =
           (if Some (this_nodeId (localNode c)) \<in> set (replicaNodes r)
            then [Some (this_nodeId (localNode c))] else [])
           @ filter (\<lambda>t. t \<noteq> Some (this_nodeId (localNode c)) \<and> has_link (localNode c) t)
               (replicaNodes r)
       \<and> (\<forall>w \<in> set (writeResults r). wr_error w \<noteq> Some ''not_connected'')"
proof -
  from assms obtain targets where
    targets: "getReplicaNodes key (consistentHashing c) = Some targets"
    by (auto simp: put_def Let_def split: option.splits)
  let ?self = "this_nodeId (localNode c)"
  let ?node = "if Some ?self \<in> set targets then storeData storeNow key val 1 (localNode c)
               else localNode c"
  let ?md = "\<lparr>version = 1, timestamp = now, md_nodeId = ?self\<rparr>"
  let ?rep = "replicateToPeers ?node key val ?md acked targets"
  have self: "this_nodeId ?node = ?self"
    by (simp add: storeData_def)
  have link: "has_link ?node t = has_link (localNode c) t" for t
    by (simp add: has_link_storeData)
  from assms targets have r: "replicaNodes r = targets"
    and w: "writeResults r =
        (if Some ?self \<in> set targets
         then [\<lparr>wr_nodeId = Some ?self, wr_success = True, wr_error = None\<rparr>] else [])
        @ map snd ?rep"
    by (auto simp: put_def Let_def)
  have "map wr_nodeId (map snd ?rep) =
          filter (\<lambda>t. t \<noteq> Some ?self \<and> has_link (localNode c) t) targets"
    using replicateToPeers_targets [of ?node key val ?md acked targets]
    by (simp only: map_map self link)
  then have a: "map wr_nodeId (writeResults r) =
           (if Some ?self \<in> set (replicaNodes r) then [Some ?self] else [])
           @ filter (\<lambda>t. t \<noteq> Some ?self \<and> has_link (localNode c) t) (replicaNodes r)"
    by (simp add: w r)
  have "wr_error x \<noteq> Some ''not_connected''" if "x \<in> set (map snd ?rep)" for x
  proof -
    from that obtain e where "(e, x) \<in> set ?rep" by auto
    then show ?thesis by (rule replicateToPeers_no_not_connected)
  qed
  then have b: "\<forall>x \<in> set (writeResults r). wr_error x \<noteq> Some ''not_connected''"
    by (auto simp: w)
  from a b show ?thesis by simp
qed

text \<open>
  Claim C8 at the cluster of \<open>node-1\<close> whose ring holds \<open>node-2\<close> with no peer link to it
  (the ring has one virtual node per node): \<open>node-2\<close> is in the replica list of the PUT
  and the results hold the local write only.
\<close>

theorem put_results_skip_unlinked_witness:
  "put ''user:1'' (Json ''John'') 1000 1000 (\<lambda>t. True) cluster_unlinked =
     Returns
       (\<lparr>success = False, put_key = ''user:1'',
         replicaNodes = [Some ''node-1'', Some ''node-2''],
         successfulWrites = 1, put_quorumSize = 2, quorumAchieved = False,
         writeResults = [\<lparr>wr_nodeId = Some ''node-1'', wr_success = True, wr_error = None\<rparr>]\<rparr>,
        [],
        cluster_unlinked\<lparr>localNode :=
          storeData 1000 ''user:1'' (Json ''John'') 1 (new_Node ''node-1'')\<rparr>)
   \<and> \<not> has_link (localNode cluster_unlinked) (Some ''node-2'')
   \<and> map wr_nodeId
        [\<lparr>wr_nodeId = Some ''node-1'', wr_success = True, wr_error = None\<rparr>]
       = [Some ''node-1'']
         @ filter (\<lambda>t. t \<noteq> Some ''node-1'' \<and> has_link (localNode cluster_unlinked) t)
             [Some ''node-1'', Some ''node-2'']"
proof -
  let ?r = "\<lparr>success = False, put_key = ''user:1'',
         replicaNodes = [Some ''node-1'', Some ''node-2''],
         successfulWrites = 1, put_quorumSize = 2, quorumAchieved = False,
         writeResults = [\<lparr>wr_nodeId = Some ''node-1'', wr_success = True, wr_error = None\<rparr>]\<rparr>"
  have p: "put ''user:1'' (Json ''John'') 1000 1000 (\<lambda>t. True) cluster_unlinked =
     Returns (?r, [],
        cluster_unlinked\<lparr>localNode :=
          storeData 1000 ''user:1'' (Json ''John'') 1 (new_Node ''node-1'')\<rparr>)"
    by (simp add: put_def Let_def cluster_unlinked_def ring_of_two_user_1 storeData_def new_Node_def)
  have l: "\<not> has_link (localNode cluster_unlinked) (Some ''node-2'')"
    by (simp add: has_link_def cluster_unlinked_def new_Node_def)
  have s: "this_nodeId (localNode cluster_unlinked) = ''node-1''"
    by (simp add: cluster_unlinked_def new_Node_def)
  from put_results_skip_unlinked [OF p] have
    "map wr_nodeId (writeResults ?r) =
           (if Some ''node-1'' \<in> set (replicaNodes ?r) then [Some ''node-1''] else [])
           @ filter (\<lambda>t. t \<noteq> Some ''node-1'' \<and> has_link (localNode cluster_unlinked) t)
               (replicaNodes ?r)"
    by (simp only: s)
  with p l show ?thesis by simp
qed

text \<open>
  Claim C9: \<open>handleWriteRequest\<close> replies \<open>{success: true, nodeId}\<close> and stores the
  value and a fresh metadata entry for the key whatever was stored before; no timestamp
  is compared. On the same node and message, \<open>handleReplication\<close> changes nothing when
  the stored timestamp is not below the incoming one.
\<close>

theorem write_request_overwrites:
  "fst (handleWriteRequest msg now n) = \<lparr>reply_success = True, reply_nodeId = this_nodeId n\<rparr>
   \<and> map_of (data (snd (handleWriteRequest msg now n))) =
       (map_of (data n)) (msg_key msg \<mapsto> msg_value msg)
   \<and> map_of (metadata (snd (handleWriteRequest msg now n))) =
       (map_of (metadata n)) (msg_key msg \<mapsto>
          \<lparr>version = version (msg_metadata msg), timestamp = now, md_nodeId = this_nodeId n\<rparr>)
   \<and> (\<forall>existing. map_of (metadata n) (msg_key msg) = Some existing
          \<and> timestamp (msg_metadata msg) \<le> timestamp existing
        \<longrightarrow> handleReplication msg now n = n)"
  by (auto simp: handleWriteRequest_def storeData_def handleReplication_def map_of_map_set)

text \<open>
  Claim C9 at a replica holding \<open>v2\<close> with timestamp 500: the write \<open>v1\<close> with timestamp
  100 is skipped as a replication and stored as a write request.
\<close>

theorem write_request_overwrites_witness:
  "map_of (metadata (storeData 500 ''k'' (Json ''v2'') 1 (new_Node ''node-2''))) (msg_key write_v1)
     = Some \<lparr>version = 1, timestamp = 500, md_nodeId = ''node-2''\<rparr>
   \<and> timestamp (msg_metadata write_v1) \<le> 500
   \<and> handleReplication write_v1 600 (storeData 500 ''k'' (Json ''v2'') 1 (new_Node ''node-2''))
       = storeData 500 ''k'' (Json ''v2'') 1 (new_Node ''node-2'')
   \<and> getData ''k'' (snd (handleWriteRequest write_v1 600
         (storeData 500 ''k'' (Json ''v2'') 1 (new_Node ''node-2''))))
       = Some \<lparr>rec_value = Json ''v1'',
                rec_metadata = Some \<lparr>version = 1, timestamp = 600, md_nodeId = ''node-2''\<rparr>\<rparr>"
proof -
  let ?n = "storeData 500 ''k'' (Json ''v2'') 1 (new_Node ''node-2'')"
  have a: "map_of (metadata ?n) (msg_key write_v1)
             = Some \<lparr>version = 1, timestamp = 500, md_nodeId = ''node-2''\<rparr>"
    by (simp add: storeData_def new_Node_def write_v1_def)
  have b: "timestamp (msg_metadata write_v1) \<le> 500"
    by (simp add: write_v1_def)
  from write_request_overwrites [of write_v1 600 ?n] a b
  have "handleReplication write_v1 600 ?n = ?n"
    by simp
  moreover have "getData ''k'' (snd (handleWriteRequest write_v1 600 ?n))
       = Some \<lparr>rec_value = Json ''v1'',
                rec_metadata = Some \<lparr>version = 1, timestamp = 600, md_nodeId = ''node-2''\<rparr>\<rparr>"
    by (simp add: handleWriteRequest_def storeData_def new_Node_def write_v1_def getData_def)
  ultimately show ?thesis using a b by simp
qed


lemma readFromPeer_silent:
  "\<forall>t response. replies t \<noteq> Reply (Some response) \<Longrightarrow> \<not> rr_success (readFromPeer n replies target)"
  by (auto simp: readFromPeer_def split: option.splits read_reply.splits)






section \<open>Claims about GET\<close>

lemma latest_of_snoc:
  "latest_of first (rest @ [c]) =
     (case latest_of first rest of
        Inl e \<Rightarrow> Inl e
      | Inr l \<Rightarrow>
          (case result_timestamp c of
             None \<Rightarrow> Inl TypeError
           | Some tc \<Rightarrow>
               (case result_timestamp l of
                  None \<Rightarrow> Inl TypeError
                | Some tlat \<Rightarrow> Inr (if tc > tlat then c else l))))"
  by (induction rest arbitrary: first) (simp_all split: option.splits sum.splits)

lemma latest_of_first_max:
  assumes "\<forall>x \<in> set (first # rest). result_timestamp x \<noteq> None"
  shows "\<exists>pre r post t. first # rest = pre @ r # post \<and> latest_of first rest = Inr r
           \<and> result_timestamp r = Some t
           \<and> (\<forall>x \<in> set pre. \<exists>tx. result_timestamp x = Some tx \<and> tx < t)
           \<and> (\<forall>x \<in> set post. \<exists>tx. result_timestamp x = Some tx \<and> tx \<le> t)"
  using assms
proof (induction rest rule: rev_induct)
  case Nil
  then obtain t where "result_timestamp first = Some t" by auto
  then have "first # [] = [] @ first # [] \<and> latest_of first [] = Inr first
           \<and> result_timestamp first = Some t
           \<and> (\<forall>x \<in> set []. \<exists>tx. result_timestamp x = Some tx \<and> tx < t)
           \<and> (\<forall>x \<in> set []. \<exists>tx. result_timestamp x = Some tx \<and> tx \<le> t)"
    by simp
  then show ?case by blast
next
  case (snoc c rest)
  then have "\<forall>x \<in> set (first # rest). result_timestamp x \<noteq> None" by simp
  from snoc.IH [OF this] obtain pre r post t where
    split: "first # rest = pre @ r # post" and run: "latest_of first rest = Inr r"
    and t: "result_timestamp r = Some t"
    and before: "\<forall>x \<in> set pre. \<exists>tx. result_timestamp x = Some tx \<and> tx < t"
    and after: "\<forall>x \<in> set post. \<exists>tx. result_timestamp x = Some tx \<and> tx \<le> t"
    by blast
  from snoc.prems obtain tc where tc: "result_timestamp c = Some tc" by auto
  show ?case
  proof (cases "tc > t")
    case True
    have run': "latest_of first (rest @ [c]) = Inr c"
      using run t tc True by (simp add: latest_of_snoc)
    have all: "\<forall>x \<in> set (first # rest). \<exists>tx. result_timestamp x = Some tx \<and> tx < tc"
      unfolding split using before after t True by fastforce
    have "first # (rest @ [c]) = (first # rest) @ c # []" by simp
    with run' tc all show ?thesis
      by (intro exI [of _ "first # rest"] exI [of _ c] exI [of _ "[]"] exI [of _ tc]) simp
  next
    case False
    have run': "latest_of first (rest @ [c]) = Inr r"
      using run t tc False by (simp add: latest_of_snoc)
    have "first # (rest @ [c]) = pre @ r # (post @ [c])"
      using split by simp
    moreover have "\<forall>x \<in> set (post @ [c]). \<exists>tx. result_timestamp x = Some tx \<and> tx \<le> t"
      using after tc False by auto
    ultimately show ?thesis
      using run' t before
      by (intro exI [of _ pre] exI [of _ r] exI [of _ "post @ [c]"] exI [of _ t]) simp
  qed
qed

lemma resolve_first_latest:
  assumes nonempty: "results \<noteq> []"
    and complete: "\<forall>x \<in> set results. result_timestamp x \<noteq> None"
  shows "\<exists>pre r post d md.
           results = pre @ r # post
         \<and> rr_data r = Some d \<and> rec_metadata d = Some md
         \<and> (\<forall>x \<in> set pre. \<exists>tx. result_timestamp x = Some tx \<and> tx < timestamp md)
         \<and> (\<forall>x \<in> set post. \<exists>tx. result_timestamp x = Some tx \<and> tx \<le> timestamp md)
         \<and> resolve results quorum =
             Returns (Some \<lparr>get_value = rec_value d, get_metadata = Some md,
                            readResults = length results,
                            read_quorumAchieved = (quorum \<le> length results)\<rparr>)"
proof -
  from nonempty obtain first rest where fr: "results = first # rest"
    by (cases results) auto
  from latest_of_first_max [of first rest] complete obtain pre r post t where
    split: "first # rest = pre @ r # post" and run: "latest_of first rest = Inr r"
    and t: "result_timestamp r = Some t"
    and before: "\<forall>x \<in> set pre. \<exists>tx. result_timestamp x = Some tx \<and> tx < t"
    and after: "\<forall>x \<in> set post. \<exists>tx. result_timestamp x = Some tx \<and> tx \<le> t"
    unfolding fr by blast
  from t obtain d md where d: "rr_data r = Some d" and md: "rec_metadata d = Some md"
    and tm: "timestamp md = t"
    by (auto simp: result_timestamp_def split: option.splits)
  have "resolve results quorum =
          Returns (Some \<lparr>get_value = rec_value d, get_metadata = Some md,
                         readResults = length results,
                         read_quorumAchieved = (quorum \<le> length results)\<rparr>)"
    by (simp add: resolve_def fr run d md)
  with split d md before after show ?thesis
    unfolding fr tm [symmetric] by blast
qed

text \<open>
  Claim C5, amended: when the results a GET collects are not empty (and each carries its
  metadata), the coordinator returns the value and metadata of a result with the largest
  timestamp; when several results have that timestamp, it is the first of them in the
  order of collection (the coordinator's own record first, then the peers in the order of
  the replica list).
\<close>

theorem get_returns_first_latest:
  assumes targets: "getReplicaNodes key (consistentHashing c) = Some targets"
    and nonempty: "collectReadResults key replies targets c \<noteq> []"
    and complete: "\<forall>x \<in> set (collectReadResults key replies targets c). result_timestamp x \<noteq> None"
  shows "\<exists>pre r post d md.
           collectReadResults key replies targets c = pre @ r # post
         \<and> rr_data r = Some d \<and> rec_metadata d = Some md
         \<and> (\<forall>x \<in> set pre. \<exists>tx. result_timestamp x = Some tx \<and> tx < timestamp md)
         \<and> (\<forall>x \<in> set post. \<exists>tx. result_timestamp x = Some tx \<and> tx \<le> timestamp md)
         \<and> get key replies c =
             Returns (Some \<lparr>get_value = rec_value d, get_metadata = Some md,
                            readResults = length (collectReadResults key replies targets c),
                            read_quorumAchieved =
                              (quorumSize c \<le> length (collectReadResults key replies targets c))\<rparr>)"
  using resolve_first_latest [OF nonempty complete, of "quorumSize c"]
  by (simp add: get_def targets)

text \<open>
  Claim C5 at \<open>node-1\<close>, which holds \<open>A\<close> with timestamp 5 while its peer answers \<open>B\<close>
  with timestamp 7: the GET returns \<open>B\<close>.
\<close>

theorem get_returns_first_latest_witness:
  "get ''user:1'' later_answer coordinator_1
     = Returns (Some \<lparr>get_value = Json ''B'',
                      get_metadata = Some \<lparr>version = 1, timestamp = 7, md_nodeId = ''node-2''\<rparr>,
                      readResults = 2, read_quorumAchieved = True\<rparr>)
   \<and> (\<exists>pre r post d md.
         collectReadResults ''user:1'' later_answer [Some ''node-1'', Some ''node-2''] coordinator_1
           = pre @ r # post
       \<and> rr_data r = Some d \<and> rec_metadata d = Some md
       \<and> (\<forall>x \<in> set pre. \<exists>tx. result_timestamp x = Some tx \<and> tx < timestamp md)
       \<and> (\<forall>x \<in> set post. \<exists>tx. result_timestamp x = Some tx \<and> tx \<le> timestamp md)
       \<and> get ''user:1'' later_answer coordinator_1 =
           Returns (Some \<lparr>get_value = rec_value d, get_metadata = Some md,
             readResults =
               length (collectReadResults ''user:1'' later_answer
                         [Some ''node-1'', Some ''node-2''] coordinator_1),
             read_quorumAchieved =
               (quorumSize coordinator_1
                  \<le> length (collectReadResults ''user:1'' later_answer
                              [Some ''node-1'', Some ''node-2''] coordinator_1))\<rparr>))"
proof -
  let ?rs = "collectReadResults ''user:1'' later_answer [Some ''node-1'', Some ''node-2''] coordinator_1"
  have rs: "?rs =
      [\<lparr>rr_nodeId = Some ''node-1'', rr_success = True,
        rr_data = Some \<lparr>rec_value = Json ''A'',
                    rec_metadata = Some \<lparr>version = 1, timestamp = 5, md_nodeId = ''node-1''\<rparr>\<rparr>,
        rr_error = None\<rparr>,
       \<lparr>rr_nodeId = Some ''node-2'', rr_success = True,
        rr_data = Some \<lparr>rec_value = Json ''B'',
                    rec_metadata = Some \<lparr>version = 1, timestamp = 7, md_nodeId = ''node-2''\<rparr>\<rparr>,
        rr_error = None\<rparr>]"
    by (simp add: coordinator_1_def later_answer_def collectReadResults_def Let_def getData_def
        storeData_def handleIdentify_def new_Node_def readFromPeer_def)
  have 0: "getReplicaNodes ''user:1'' (consistentHashing coordinator_1)
             = Some [Some ''node-1'', Some ''node-2'']"
    by (simp add: coordinator_1_def ring_of_two_user_1)
  have 1: "?rs \<noteq> []"
    by (simp add: rs)
  have 2: "\<forall>x \<in> set ?rs. result_timestamp x \<noteq> None"
    by (simp add: rs result_timestamp_def)
  have 3: "get ''user:1'' later_answer coordinator_1
     = Returns (Some \<lparr>get_value = Json ''B'',
                      get_metadata = Some \<lparr>version = 1, timestamp = 7, md_nodeId = ''node-2''\<rparr>,
                      readResults = 2, read_quorumAchieved = True\<rparr>)"
    by (simp add: get_def 0 rs resolve_def result_timestamp_def) (simp add: coordinator_1_def)
  from get_returns_first_latest [OF 0 1 2] 3 show ?thesis
    by blast
qed

text \<open>
  Claim C5 as stated fails on a tie: \<open>node-1\<close> holds \<open>A\<close> and \<open>node-2\<close> holds \<open>B\<close>, both
  with timestamp 5, and each answers the other's \<open>read_request\<close> from its store. The GET
  coordinated by \<open>node-1\<close> returns \<open>A\<close> and the GET coordinated by \<open>node-2\<close> returns \<open>B\<close>:
  the order of collection decides, not the order of the origin node ids.
\<close>

theorem get_tie_depends_on_coordinator:
  "get ''user:1'' (answers_of coordinator_2) coordinator_1
     = Returns (Some \<lparr>get_value = Json ''A'',
                      get_metadata = Some \<lparr>version = 1, timestamp = 5, md_nodeId = ''node-1''\<rparr>,
                      readResults = 2, read_quorumAchieved = True\<rparr>)
   \<and> get ''user:1'' (answers_of coordinator_1) coordinator_2
     = Returns (Some \<lparr>get_value = Json ''B'',
                      get_metadata = Some \<lparr>version = 1, timestamp = 5, md_nodeId = ''node-2''\<rparr>,
                      readResults = 2, read_quorumAchieved = True\<rparr>)"
  by (simp add: get_def coordinator_1_def coordinator_2_def answers_of_def ring_of_two_user_1
      ring_of_two_at_2_user_1 collectReadResults_def Let_def getData_def handleReadRequest_def
      storeData_def handleIdentify_def new_Node_def readFromPeer_def resolve_def
      result_timestamp_def)

end
